theory Spec2Isabelle
  imports Main "HOL-Library.Sublist"
begin

section \<open>Evergreen note taker: the resumable three-phase pipeline\<close>

text \<open>
  A shallow embedding of the pipeline of the evergreen note taker: the orchestrators
  \<^verbatim>\<open>processBookWithGrok\<close> (services/grokService.ts), \<^verbatim>\<open>processBookWithGemini\<close>
  (services/geminiService.ts) and the OpenRouter variant of \<^verbatim>\<open>processBookWithGemini\<close>
  that interlinks note by note, their retry wrappers and response parsers, and the two
  places of the presentation layer that resolve \<^verbatim>\<open>[[Title]]\<close> markers
  (\<^verbatim>\<open>NetworkGraph\<close> and \<^verbatim>\<open>handleSelectNoteByTitle\<close> of App.tsx).

  Conventions. Values range over the declared TypeScript types: a parsed reply is taken at
  the type it is cast to, with one addition, the \<^verbatim>\<open>title\<close> key that the reply of phase 2 can
  carry into \<^verbatim>\<open>{ title, ...body }\<close>. A reply of another shape can make the orchestrator's own
  code throw (\<^verbatim>\<open>title.substring\<close> on a title that is not a string, \<^verbatim>\<open>map\<close> on a reply that
  is not an array); such runs are outside the model, and what is proved of a failing run is
  stated for a run in which a phase call throws. A character stands for a UTF-16 code unit below 256,
  so the text covered is Latin-1; the regular-expression classes \<^verbatim>\<open>\s\<close> and \<^verbatim>\<open>.\<close> are exact
  on it. \<^verbatim>\<open>String.prototype.trim\<close> and \<^verbatim>\<open>toLowerCase\<close> belong to the runtime and are
  parameters, as are the model's replies, the network and \<^verbatim>\<open>JSON.parse\<close>. Numbers are
  natural numbers (the source only counts indices, attempts and milliseconds). An awaited
  call either returns a value or throws; a run is its list of observable events together
  with this result.
\<close>

subsection \<open>JavaScript string helpers\<close>

definition digit_char :: "nat \<Rightarrow> char" where
  "digit_char d = ''0123456789'' ! d"

text \<open>\<^verbatim>\<open>Number.prototype.toString()\<close> on a non-negative integer: its decimal digits.\<close>

function toString :: "nat \<Rightarrow> string" where
  "toString n =
     (if n < 10 then [digit_char n] else toString (n div 10) @ [digit_char (n mod 10)])"
  by pat_completeness auto
termination
  by (relation "measure (\<lambda>n. n)") auto

declare toString.simps [simp del]

text \<open>\<^verbatim>\<open>s.padStart(targetLength, c)\<close> for a one-character pad string.\<close>

definition padStart :: "string \<Rightarrow> nat \<Rightarrow> char \<Rightarrow> string" where
  "padStart s targetLength c = replicate (targetLength - length s) c @ s"

text \<open>\<^verbatim>\<open>s.substring(a, b)\<close>: both indices are clamped to the length and swapped if needed.\<close>

definition substring :: "string \<Rightarrow> nat \<Rightarrow> nat \<Rightarrow> string" where
  "substring s a b =
     (let a' = min a (length s); b' = min b (length s)
      in take (max a' b' - min a' b') (drop (min a' b') s))"

text \<open>The white space and line terminators below 256, which is what the class \<^verbatim>\<open>\s\<close> matches
  there: tab, LF, VT, FF, CR, space and the no-break space U+00A0.\<close>

definition is_space :: "char \<Rightarrow> bool" where
  "is_space c = (of_char c \<in> {9, 10, 11, 12, 13, 32, 160 :: nat})"

text \<open>The string functions of the runtime that the program calls and whose definition (the
  Unicode tables) is not the program's: \<^verbatim>\<open>s.trim()\<close> and \<^verbatim>\<open>s.toLowerCase()\<close>. Every
  definition that calls one takes the runtime as an argument, and every theorem holds for
  every runtime.\<close>

record runtime =
  trim :: "string \<Rightarrow> string"
  toLowerCase :: "string \<Rightarrow> string"

text \<open>\<^verbatim>\<open>s.includes(sub)\<close>.\<close>

fun js_includes :: "string \<Rightarrow> string \<Rightarrow> bool" where
  "js_includes [] sub = (sub = [])"
| "js_includes (c # cs) sub = (prefix sub (c # cs) \<or> js_includes cs sub)"

text \<open>The template \<^verbatim>\<open>`note_${index.toString().padStart(3, '0')}`\<close>.\<close>

definition note_id_of :: "nat \<Rightarrow> string" where
  "note_id_of index = ''note_'' @ padStart (toString index) 3 CHR ''0''"

text \<open>Reading a decimal numeral back, used to show that the ids are pairwise different.\<close>

definition digit_val :: "char \<Rightarrow> nat" where
  "digit_val c = of_char c - 48"

definition decimal_val :: "string \<Rightarrow> nat" where
  "decimal_val s = foldl (\<lambda>a c. 10 * a + digit_val c) 0 s"

subsection \<open>Data model (types.ts)\<close>

datatype ProcessingStatus = Idle | Processing | Completed | Error

record UnlinkedNote =
  title :: string
  content :: string
  quotes :: "string list"
  source :: string

text \<open>A \<^verbatim>\<open>Note\<close> is an \<^verbatim>\<open>UnlinkedNote\<close> with an \<^verbatim>\<open>id\<close>.\<close>

record Note = UnlinkedNote +
  id_n :: string

record ProcessingState =
  status :: ProcessingStatus
  stage :: string
  inputText :: string
  titles :: "string list"
  unlinkedNotes :: "UnlinkedNote list"
  finalNotes :: "Note list"
  error :: "string option"

text \<open>The parsed reply of phase 2. It is cast to \<^verbatim>\<open>Omit<UnlinkedNote, 'title'>\<close> without a
  check, and the prompt asks the model to leave out \<^verbatim>\<open>title\<close>; \<open>body_title\<close> is the
  \<^verbatim>\<open>title\<close> key of a reply that has one all the same.\<close>

record NoteBody =
  body_title :: "string option"
  body_content :: string
  body_quotes :: "string list"
  body_source :: string

text \<open>\<^verbatim>\<open>Partial<ProcessingState>\<close>: the argument of \<^verbatim>\<open>onProgress\<close>. A field that is
  \<open>None\<close> is absent from the object.\<close>

record ProgressUpdate =
  p_status :: "ProcessingStatus option"
  p_stage :: "string option"
  p_titles :: "string list option"
  p_unlinkedNotes :: "UnlinkedNote list option"
  p_finalNotes :: "Note list option"
  p_error :: "string option option"

definition no_update :: ProgressUpdate where
  "no_update = \<lparr>p_status = None, p_stage = None, p_titles = None,
     p_unlinkedNotes = None, p_finalNotes = None, p_error = None\<rparr>"

text \<open>\<^verbatim>\<open>{ ...prev, ...update }\<close>, the merge of \<^verbatim>\<open>handleProgress\<close> in App.tsx.\<close>

definition merge :: "ProcessingState \<Rightarrow> ProgressUpdate \<Rightarrow> ProcessingState" where
  "merge prev update =
     \<lparr>status = (case p_status update of None \<Rightarrow> status prev | Some v \<Rightarrow> v),
      stage = (case p_stage update of None \<Rightarrow> stage prev | Some v \<Rightarrow> v),
      inputText = inputText prev,
      titles = (case p_titles update of None \<Rightarrow> titles prev | Some v \<Rightarrow> v),
      unlinkedNotes =
        (case p_unlinkedNotes update of None \<Rightarrow> unlinkedNotes prev | Some v \<Rightarrow> v),
      finalNotes = (case p_finalNotes update of None \<Rightarrow> finalNotes prev | Some v \<Rightarrow> v),
      error = (case p_error update of None \<Rightarrow> error prev | Some v \<Rightarrow> v)\<rparr>"

text \<open>\<^verbatim>\<open>{ ...note, id: i }\<close> on an unlinked note, and \<^verbatim>\<open>{ title, ...body }\<close>: the keys of
  \<^verbatim>\<open>body\<close> are spread after \<^verbatim>\<open>title\<close>, so a \<^verbatim>\<open>title\<close> key of the reply replaces the
  title asked for.\<close>

definition with_id :: "UnlinkedNote \<Rightarrow> string \<Rightarrow> Note" where
  "with_id note i = \<lparr>title = title note, content = content note, quotes = quotes note,
     source = source note, id_n = i\<rparr>"

definition with_title :: "string \<Rightarrow> NoteBody \<Rightarrow> UnlinkedNote" where
  "with_title t body =
     \<lparr>title = (case body_title body of None \<Rightarrow> t | Some replyTitle \<Rightarrow> replyTitle),
      content = body_content body, quotes = body_quotes body, source = body_source body\<rparr>"

subsection \<open>Thrown values, events and outcomes\<close>

text \<open>
  What a \<^verbatim>\<open>catch (error: any)\<close> can see of a thrown value. The values covered are: an
  \<^verbatim>\<open>Error\<close> instance with its message, a string; the plain object \<^verbatim>\<open>{ status, body }\<close> that
  the OpenRouter wrapper throws for a response that is not ok, with \<^verbatim>\<open>body.error.message\<close>
  when present; and an object that is no \<^verbatim>\<open>Error\<close> and whose \<^verbatim>\<open>message\<close> is a string or is
  missing (\<open>Other_thrown\<close>). A value whose \<^verbatim>\<open>message\<close> is of another kind, on which
  \<^verbatim>\<open>error.message.includes\<close> itself throws, is not covered. The \<^verbatim>\<open>null\<close> that \<^verbatim>\<open>lastError\<close>
  starts with is written \<open>Other_thrown None\<close>: a wrapper can only throw it when it makes no
  attempt, and the catch blocks of the orchestrators treat both alike.
\<close>

datatype thrown =
    Error_obj string
  | Error_info nat "string option"
  | Other_thrown "string option"

fun message_of :: "thrown \<Rightarrow> string option" where
  "message_of (Error_obj m) = Some m"
| "message_of (Error_info st b) = None"
| "message_of (Other_thrown m) = m"

fun instanceof_Error :: "thrown \<Rightarrow> bool" where
  "instanceof_Error (Error_obj m) = True"
| "instanceof_Error (Error_info st b) = False"
| "instanceof_Error (Other_thrown m) = False"

text \<open>
  The observable events of a run: a progress update handed to \<^verbatim>\<open>onProgress\<close>, a call of a
  phase function with its arguments (for phase 2 and the note-by-note interlinking together
  with the loop index that made the call), a \<^verbatim>\<open>delay(ms)\<close>, and one attempt of a retry wrapper.
\<close>

datatype event =
    OnProgress ProgressUpdate
  | ExtractConcepts string
  | GenerateSingleNoteBody nat string string
  | InterlinkNotes "Note list"
  | InterlinkSingleNote nat UnlinkedNote "string list"
  | Delay nat
  | ApiCall nat

type_synonym 'a outcome = "event list \<times> (thrown + 'a)"

definition returns :: "'a \<Rightarrow> 'a outcome" where
  "returns x = ([], Inr x)"

definition throws :: "thrown \<Rightarrow> 'a outcome" where
  "throws e = ([], Inl e)"

definition onProgress :: "ProgressUpdate \<Rightarrow> unit outcome" where
  "onProgress update = ([OnProgress update], Inr ())"

definition delay :: "nat \<Rightarrow> unit outcome" where
  "delay ms = ([Delay ms], Inr ())"

text \<open>An awaited call: the event of the call, then its reply.\<close>

definition await :: "event \<Rightarrow> thrown + 'a \<Rightarrow> 'a outcome" where
  "await ev reply = ([ev], reply)"

text \<open>Sequencing: the rest runs only if the first part did not throw.\<close>

fun then_do :: "'a outcome \<Rightarrow> ('a \<Rightarrow> 'b outcome) \<Rightarrow> 'b outcome" where
  "then_do (evs, Inl e) f = (evs, Inl e)"
| "then_do (evs, Inr x) f = (case f x of (evs', r) \<Rightarrow> (evs @ evs', r))"

text \<open>\<^verbatim>\<open>try { ... } catch (error) { ... }\<close>.\<close>

fun try_catch :: "'a outcome \<Rightarrow> (thrown \<Rightarrow> 'a outcome) \<Rightarrow> 'a outcome" where
  "try_catch (evs, Inl e) h = (case h e of (evs', r) \<Rightarrow> (evs @ evs', r))"
| "try_catch (evs, Inr x) h = (evs, Inr x)"

subsection \<open>The phase functions, as the orchestrator sees them\<close>

text \<open>
  Each phase function is one awaited request to the model followed by the parsing of the
  reply. What comes back is not determined by the program, so it is a parameter: the reply
  to the phase-1 request for a text, to the phase-2 request made by loop iteration \<open>i\<close> for a
  title, to the batch interlink request for the notes sent, and to the interlink request
  made by iteration \<open>i\<close> for one note's content and the link targets offered. Within a run
  each of these requests is made at most once. \<open>api_error_message m\<close> is
  \<^verbatim>\<open>JSON.parse(m).error.message\<close> when \<open>m\<close> parses to an object with that (truthy) property.
\<close>

record env =
  extractConcepts_reply :: "string \<Rightarrow> thrown + string list"
  generateSingleNoteBody_reply :: "nat \<Rightarrow> string \<Rightarrow> string \<Rightarrow> thrown + NoteBody"
  interlinkNotes_reply :: "Note list \<Rightarrow> thrown + Note list"
  interlinkSingleNote_reply :: "nat \<Rightarrow> string \<Rightarrow> string list \<Rightarrow> thrown + string"
  api_error_message :: "string \<Rightarrow> string option"

definition extractConcepts :: "env \<Rightarrow> string \<Rightarrow> string list outcome" where
  "extractConcepts env bookContent =
     await (ExtractConcepts bookContent) (extractConcepts_reply env bookContent)"

definition generateSingleNoteBody :: "env \<Rightarrow> nat \<Rightarrow> string \<Rightarrow> string \<Rightarrow> NoteBody outcome" where
  "generateSingleNoteBody env i bookContent t =
     await (GenerateSingleNoteBody i bookContent t)
       (generateSingleNoteBody_reply env i bookContent t)"

text \<open>\<^verbatim>\<open>notes.map((note, index) => ({ ...note, id: `note_${...}` }))\<close>, on unlinked notes
  and on the notes of a reply.\<close>

definition notesWithTempIds :: "UnlinkedNote list \<Rightarrow> Note list" where
  "notesWithTempIds notes =
     map (\<lambda>(index, note). with_id note (note_id_of index)) (enumerate 0 notes)"

definition reassign_ids :: "Note list \<Rightarrow> Note list" where
  "reassign_ids linkedNotes =
     map (\<lambda>(index, note). note\<lparr>id_n := note_id_of index\<rparr>) (enumerate 0 linkedNotes)"

text \<open>\<^verbatim>\<open>interlinkNotes\<close> of grokService.ts overwrites the ids of the reply itself; the one
  of geminiService.ts returns the reply as parsed.\<close>

definition interlinkNotes_grok :: "env \<Rightarrow> UnlinkedNote list \<Rightarrow> Note list outcome" where
  "interlinkNotes_grok env notes =
     then_do (await (InterlinkNotes (notesWithTempIds notes))
                (interlinkNotes_reply env (notesWithTempIds notes)))
       (\<lambda>linkedNotes. returns (reassign_ids linkedNotes))"

definition interlinkNotes_gemini :: "env \<Rightarrow> UnlinkedNote list \<Rightarrow> Note list outcome" where
  "interlinkNotes_gemini env notes =
     await (InterlinkNotes (notesWithTempIds notes))
       (interlinkNotes_reply env (notesWithTempIds notes))"

text \<open>\<^verbatim>\<open>interlinkSingleNote\<close> of the OpenRouter service: the prompt carries the note's
  content and \<^verbatim>\<open>otherTitles\<close>.\<close>

definition otherTitles :: "UnlinkedNote \<Rightarrow> string list \<Rightarrow> string list" where
  "otherTitles noteToLink allTitles = filter (\<lambda>t. t \<noteq> title noteToLink) allTitles"

definition interlinkSingleNote :: "env \<Rightarrow> nat \<Rightarrow> UnlinkedNote \<Rightarrow> string list \<Rightarrow> string outcome" where
  "interlinkSingleNote env i noteToLink allTitles =
     await (InterlinkSingleNote i noteToLink (otherTitles noteToLink allTitles))
       (interlinkSingleNote_reply env i (content noteToLink) (otherTitles noteToLink allTitles))"

subsection \<open>The orchestrator\<close>

text \<open>The three orchestrators share phases 1 and 2 line by line; they differ in phase 3
  and in how the catch block words the error.\<close>

datatype service = GrokService | GeminiService | OpenRouterService

definition progress_stage :: "string \<Rightarrow> ProgressUpdate" where
  "progress_stage s = no_update\<lparr>p_stage := Some s\<rparr>"

definition phase1 :: "env \<Rightarrow> ProcessingState \<Rightarrow> ProcessingState outcome" where
  "phase1 env state =
     (if length (titles state) = 0 then
        then_do (onProgress (no_update\<lparr>p_stage := Some ''Phase 1/3: Extracting core concepts...'',
                                        p_status := Some Processing\<rparr>)) (\<lambda>_.
        then_do (extractConcepts env (inputText state)) (\<lambda>titles'.
        then_do (onProgress (no_update\<lparr>p_titles := Some titles'\<rparr>)) (\<lambda>_.
        returns (state\<lparr>titles := titles'\<rparr>))))
      else returns state)"

definition phase2_stage :: "nat \<Rightarrow> nat \<Rightarrow> string \<Rightarrow> string" where
  "phase2_stage i n t = ''Phase 2/3: Generating note '' @ toString (i + 1) @ ''/'' @ toString n
     @ '': '' @ [CHR 0x22] @ substring t 0 40 @ ''...'' @ [CHR 0x22]"

function phase2_loop ::
  "env \<Rightarrow> ProcessingState \<Rightarrow> UnlinkedNote list \<Rightarrow> nat \<Rightarrow> (ProcessingState \<times> UnlinkedNote list) outcome"
where
  "phase2_loop env state unlinked i =
     (if i < length (titles state) then
        then_do (onProgress (progress_stage
                   (phase2_stage i (length (titles state)) (titles state ! i)))) (\<lambda>_.
        then_do (generateSingleNoteBody env i (inputText state) (titles state ! i)) (\<lambda>body.
        then_do (onProgress (no_update\<lparr>p_unlinkedNotes :=
                   Some (unlinked @ [with_title (titles state ! i) body])\<rparr>)) (\<lambda>_.
        then_do (if i < length (titles state) - 1 then delay 1500 else returns ()) (\<lambda>_.
        phase2_loop env
          (state\<lparr>unlinkedNotes := unlinked @ [with_title (titles state ! i) body]\<rparr>)
          (unlinked @ [with_title (titles state ! i) body]) (i + 1)))))
      else returns (state, unlinked))"
  by pat_completeness auto
termination
  by (relation "measure (\<lambda>(env, state, unlinked, i). length (titles state) - i)") auto

declare phase2_loop.simps [simp del]

definition phase2 :: "env \<Rightarrow> ProcessingState \<Rightarrow> ProcessingState outcome" where
  "phase2 env state =
     then_do (if length (unlinkedNotes state) < length (titles state)
              then phase2_loop env state (unlinkedNotes state) (length (unlinkedNotes state))
              else returns (state, unlinkedNotes state))
       (\<lambda>(state', unlinked). returns (state'\<lparr>unlinkedNotes := unlinked\<rparr>))"

definition phase3_stage :: "nat \<Rightarrow> nat \<Rightarrow> string \<Rightarrow> string" where
  "phase3_stage i n t = ''Phase 3/3: Interlinking note '' @ toString (i + 1) @ ''/'' @ toString n
     @ '': '' @ [CHR 0x22] @ substring t 0 40 @ ''...'' @ [CHR 0x22]"

function interlink_loop ::
  "env \<Rightarrow> ProcessingState \<Rightarrow> string list \<Rightarrow> Note list \<Rightarrow> nat \<Rightarrow> Note list outcome"
where
  "interlink_loop env state allNoteTitles final i =
     (if i < length (unlinkedNotes state) then
        then_do (onProgress (progress_stage (phase3_stage i (length (unlinkedNotes state))
                   (title (unlinkedNotes state ! i))))) (\<lambda>_.
        then_do (interlinkSingleNote env i (unlinkedNotes state ! i) allNoteTitles) (\<lambda>newContent.
        then_do (if i < length (unlinkedNotes state) - 1 then delay 1500 else returns ()) (\<lambda>_.
        interlink_loop env state allNoteTitles
          (final @ [(with_id (unlinkedNotes state ! i) (note_id_of i))\<lparr>content := newContent\<rparr>])
          (i + 1))))
      else returns final)"
  by pat_completeness auto
termination
  by (relation "measure (\<lambda>(env, state, ts, final, i). length (unlinkedNotes state) - i)") auto

declare interlink_loop.simps [simp del]

fun phase3 :: "service \<Rightarrow> env \<Rightarrow> ProcessingState \<Rightarrow> Note list outcome" where
  "phase3 GrokService env state =
     then_do (onProgress (progress_stage ''Phase 3/3: Weaving the knowledge graph...'')) (\<lambda>_.
     interlinkNotes_grok env (unlinkedNotes state))"
| "phase3 GeminiService env state =
     then_do (onProgress (progress_stage ''Phase 3/3: Weaving the knowledge graph...'')) (\<lambda>_.
     then_do (interlinkNotes_gemini env (unlinkedNotes state)) (\<lambda>linkedNotesWithIds.
     returns (reassign_ids linkedNotesWithIds)))"
| "phase3 OpenRouterService env state =
     interlink_loop env state (map title (unlinkedNotes state)) [] 0"

definition progress_completed :: "Note list \<Rightarrow> ProgressUpdate" where
  "progress_completed final =
     no_update\<lparr>p_finalNotes := Some final, p_status := Some Completed, p_stage := Some []\<rparr>"

text \<open>The body of the \<^verbatim>\<open>try\<close> block.\<close>

definition pipeline :: "service \<Rightarrow> env \<Rightarrow> ProcessingState \<Rightarrow> Note list outcome" where
  "pipeline sv env initialState =
     then_do (phase1 env initialState) (\<lambda>state1.
     then_do (phase2 env state1) (\<lambda>state2.
     if status state2 \<noteq> Completed \<or> length (finalNotes state2) = 0 then
       then_do (phase3 sv env state2) (\<lambda>final.
       then_do (onProgress (progress_completed final)) (\<lambda>_.
       returns final))
     else returns (finalNotes state2)))"

definition unknown_error :: string where
  "unknown_error = ''An unknown error occurred while processing the book.''"

fun descriptiveError :: "service \<Rightarrow> env \<Rightarrow> thrown \<Rightarrow> string" where
  "descriptiveError GrokService env e =
     (case message_of e of Some m \<Rightarrow> m | None \<Rightarrow> unknown_error)"
| "descriptiveError GeminiService env e =
     (case message_of e of
        Some m \<Rightarrow> (case api_error_message env m of
                     Some am \<Rightarrow> ''API Error: '' @ am
                   | None \<Rightarrow> m)
      | None \<Rightarrow> unknown_error)"
| "descriptiveError OpenRouterService env e =
     (if instanceof_Error e then (case message_of e of Some m \<Rightarrow> m | None \<Rightarrow> unknown_error)
      else unknown_error)"

fun failure_prefix :: "service \<Rightarrow> string" where
  "failure_prefix GrokService = ''Failed to process book with Grok: ''"
| "failure_prefix GeminiService = ''Failed to process book with Gemini: ''"
| "failure_prefix OpenRouterService = ''Failed to process book with AI: ''"

definition progress_error :: "string \<Rightarrow> ProgressUpdate" where
  "progress_error d = no_update\<lparr>p_status := Some Error, p_error := Some (Some d)\<rparr>"

definition processBook :: "service \<Rightarrow> env \<Rightarrow> ProcessingState \<Rightarrow> Note list outcome" where
  "processBook sv env initialState =
     try_catch (pipeline sv env initialState) (\<lambda>e.
       then_do (onProgress (progress_error (descriptiveError sv env e))) (\<lambda>_.
       throws (Error_obj (failure_prefix sv @ descriptiveError sv env e))))"

definition processBookWithGrok :: "env \<Rightarrow> ProcessingState \<Rightarrow> Note list outcome" where
  "processBookWithGrok = processBook GrokService"

definition processBookWithGemini :: "env \<Rightarrow> ProcessingState \<Rightarrow> Note list outcome" where
  "processBookWithGemini = processBook GeminiService"

definition processBookWithOpenRouter :: "env \<Rightarrow> ProcessingState \<Rightarrow> Note list outcome" where
  "processBookWithOpenRouter = processBook OpenRouterService"


subsection \<open>Retry wrappers\<close>

text \<open>
  A wrapper makes its attempts one after the other; what the network answers to attempt
  number \<open>attempt\<close> is a parameter. \<^verbatim>\<open>lastError\<close> starts as \<^verbatim>\<open>null\<close>. The delay is
  \<^verbatim>\<open>initialDelay * Math.pow(2, attempt)\<close>. The default arguments are
  \<^verbatim>\<open>maxRetries = 3\<close> and \<^verbatim>\<open>initialDelay = 2000\<close>, and no call site passes others.
\<close>

definition js_null :: thrown where
  "js_null = Other_thrown None"

text \<open>\<^verbatim>\<open>callGeminiWithRetries\<close> (geminiService.ts).\<close>

definition isRateLimitError_gemini :: "thrown \<Rightarrow> bool" where
  "isRateLimitError_gemini e =
     (case message_of e of
        None \<Rightarrow> False
      | Some m \<Rightarrow> js_includes m ([CHR 0x22] @ ''code'' @ [CHR 0x22] @ '':429'')
                  \<or> js_includes m ''RESOURCE_EXHAUSTED'')"

function callGeminiWithRetries_loop ::
  "(nat \<Rightarrow> thrown + 'r) \<Rightarrow> nat \<Rightarrow> nat \<Rightarrow> nat \<Rightarrow> thrown \<Rightarrow> 'r outcome"
where
  "callGeminiWithRetries_loop apiCall maxRetries initialDelay attempt lastError =
     (if attempt < maxRetries then
        try_catch (await (ApiCall attempt) (apiCall attempt)) (\<lambda>e.
          if isRateLimitError_gemini e then
            then_do (delay (initialDelay * 2 ^ attempt)) (\<lambda>_.
            callGeminiWithRetries_loop apiCall maxRetries initialDelay (attempt + 1) e)
          else throws e)
      else throws lastError)"
  by pat_completeness auto
termination
  by (relation "measure (\<lambda>(apiCall, maxRetries, initialDelay, attempt, lastError).
        maxRetries - attempt)") auto

declare callGeminiWithRetries_loop.simps [simp del]

definition callGeminiWithRetries :: "(nat \<Rightarrow> thrown + 'r) \<Rightarrow> nat \<Rightarrow> nat \<Rightarrow> 'r outcome" where
  "callGeminiWithRetries apiCall maxRetries initialDelay =
     callGeminiWithRetries_loop apiCall maxRetries initialDelay 0 js_null"

text \<open>
  What \<^verbatim>\<open>fetch\<close> resolves to: a response with its \<^verbatim>\<open>ok\<close> flag, status and status text,
  the outcome of \<^verbatim>\<open>response.text()\<close> and of \<^verbatim>\<open>response.json()\<close>, and \<^verbatim>\<open>error.message\<close> of
  the JSON body when the body has one. A chat completion is a list of choices, each with an
  optional message content and a finish reason.
\<close>

record choice =
  message_content :: "string option"
  finish_reason :: string

record OpenRouterResponse =
  choices :: "choice list"

record 'j response =
  ok :: bool
  http_status :: nat
  statusText :: string
  response_text :: "thrown + string"
  response_json :: "thrown + 'j"
  json_error_message :: "string option"

text \<open>\<^verbatim>\<open>callGrokWithRetries\<close> (grokService.ts). The body of its \<^verbatim>\<open>try\<close> block returns
  \<^verbatim>\<open>data.choices[0]?.message?.content || ''\<close>: the finish reason stays behind.\<close>

definition grok_attempt :: "thrown + OpenRouterResponse response \<Rightarrow> thrown + string" where
  "grok_attempt fetched =
     (case fetched of
        Inl e \<Rightarrow> Inl e
      | Inr response \<Rightarrow>
          if \<not> ok response then
            (case response_text response of
               Inl e \<Rightarrow> Inl e
             | Inr errorText \<Rightarrow> Inl (Error_obj (''API request failed: ''
                 @ toString (http_status response) @ '' '' @ errorText)))
          else
            (case response_json response of
               Inl e \<Rightarrow> Inl e
             | Inr data \<Rightarrow>
                 Inr (case choices data of
                        [] \<Rightarrow> []
                      | c # cs \<Rightarrow> (case message_content c of None \<Rightarrow> [] | Some t \<Rightarrow> t))))"

definition isRateLimitError_grok :: "thrown \<Rightarrow> bool" where
  "isRateLimitError_grok e =
     (case message_of e of
        None \<Rightarrow> False
      | Some m \<Rightarrow> js_includes m ''429'' \<or> js_includes m ''too many requests'')"

function callGrokWithRetries_loop ::
  "(nat \<Rightarrow> thrown + OpenRouterResponse response) \<Rightarrow> nat \<Rightarrow> nat \<Rightarrow> nat \<Rightarrow> thrown
     \<Rightarrow> string outcome"
where
  "callGrokWithRetries_loop fetch maxRetries initialDelay attempt lastError =
     (if attempt < maxRetries then
        try_catch (await (ApiCall attempt) (grok_attempt (fetch attempt))) (\<lambda>e.
          if isRateLimitError_grok e \<and> attempt < maxRetries - 1 then
            then_do (delay (initialDelay * 2 ^ attempt)) (\<lambda>_.
            callGrokWithRetries_loop fetch maxRetries initialDelay (attempt + 1) e)
          else throws e)
      else throws lastError)"
  by pat_completeness auto
termination
  by (relation "measure (\<lambda>(fetch, maxRetries, initialDelay, attempt, lastError).
        maxRetries - attempt)") auto

declare callGrokWithRetries_loop.simps [simp del]

definition callGrokWithRetries ::
  "(nat \<Rightarrow> thrown + OpenRouterResponse response) \<Rightarrow> nat \<Rightarrow> nat \<Rightarrow> string outcome" where
  "callGrokWithRetries fetch maxRetries initialDelay =
     callGrokWithRetries_loop fetch maxRetries initialDelay 0 js_null"

text \<open>\<^verbatim>\<open>callOpenRouterWithRetries\<close> (the OpenRouter service). A response that is not ok
  is thrown as the object \<^verbatim>\<open>{ status, body }\<close>; \<open>stringify\<close> is \<^verbatim>\<open>JSON.stringify\<close>.\<close>

definition openrouter_attempt :: "thrown + 'j response \<Rightarrow> thrown + 'j" where
  "openrouter_attempt fetched =
     (case fetched of
        Inl e \<Rightarrow> Inl e
      | Inr response \<Rightarrow>
          if ok response then response_json response
          else Inl (Error_info (http_status response) (json_error_message response)))"

fun isRateLimitError_openrouter :: "thrown \<Rightarrow> bool" where
  "isRateLimitError_openrouter (Error_info st b) = (st = 429)"
| "isRateLimitError_openrouter e = False"

fun openrouter_rethrow :: "(thrown \<Rightarrow> string) \<Rightarrow> thrown \<Rightarrow> thrown" where
  "openrouter_rethrow stringify (Error_info st (Some m)) =
     (if m \<noteq> [] then Error_obj (''API Error ('' @ toString st @ ''): '' @ m)
      else Error_obj (''An unknown API error occurred: '' @ stringify (Error_info st (Some m))))"
| "openrouter_rethrow stringify (Error_obj m) = Error_obj m"
| "openrouter_rethrow stringify e =
     Error_obj (''An unknown API error occurred: '' @ stringify e)"

function callOpenRouterWithRetries_loop ::
  "(thrown \<Rightarrow> string) \<Rightarrow> (nat \<Rightarrow> thrown + 'j response) \<Rightarrow> nat \<Rightarrow> nat \<Rightarrow> nat \<Rightarrow> thrown
     \<Rightarrow> 'j outcome"
where
  "callOpenRouterWithRetries_loop stringify fetch maxRetries initialDelay attempt lastError =
     (if attempt < maxRetries then
        try_catch (await (ApiCall attempt) (openrouter_attempt (fetch attempt))) (\<lambda>e.
          if isRateLimitError_openrouter e then
            then_do (delay (initialDelay * 2 ^ attempt)) (\<lambda>_.
            callOpenRouterWithRetries_loop stringify fetch maxRetries initialDelay (attempt + 1) e)
          else throws (openrouter_rethrow stringify e))
      else throws lastError)"
  by pat_completeness auto
termination
  by (relation "measure (\<lambda>(stringify, fetch, maxRetries, initialDelay, attempt, lastError).
        maxRetries - attempt)") auto

declare callOpenRouterWithRetries_loop.simps [simp del]

definition callOpenRouterWithRetries ::
  "(thrown \<Rightarrow> string) \<Rightarrow> (nat \<Rightarrow> thrown + 'j response) \<Rightarrow> nat \<Rightarrow> nat \<Rightarrow> 'j outcome" where
  "callOpenRouterWithRetries stringify fetch maxRetries initialDelay =
     callOpenRouterWithRetries_loop stringify fetch maxRetries initialDelay 0 js_null"

subsection \<open>Response parsers\<close>

text \<open>\<open>JSON_parse\<close> is \<^verbatim>\<open>JSON.parse\<close>: the decoded value, or the \<^verbatim>\<open>SyntaxError\<close> it throws.
  The two \<^verbatim>\<open>replace\<close> calls strip a leading \<^verbatim>\<open>```json\<close> with the white space after it and
  a trailing \<^verbatim>\<open>```\<close> with the white space before it.\<close>

definition strip_fence_start :: "string \<Rightarrow> string" where
  "strip_fence_start s =
     (if prefix ''```json'' s then dropWhile is_space (drop 7 s) else s)"

definition strip_fence_end :: "string \<Rightarrow> string" where
  "strip_fence_end s =
     (if suffix ''```'' s then rev (dropWhile is_space (drop 3 (rev s))) else s)"

definition invalid_format :: thrown where
  "invalid_format = Error_obj ''Invalid response format from API''"

text \<open>\<^verbatim>\<open>safeParseJsonResponse\<close> of grokService.ts: it is given the text alone.\<close>

definition safeParseJsonResponse_grok :: "(string \<Rightarrow> thrown + 'a) \<Rightarrow> string \<Rightarrow> thrown + 'a" where
  "safeParseJsonResponse_grok JSON_parse responseText =
     (case JSON_parse (strip_fence_end (strip_fence_start responseText)) of
        Inl e \<Rightarrow> Inl invalid_format
      | Inr v \<Rightarrow> Inr v)"

text \<open>A phase function of grokService.ts: \<^verbatim>\<open>callGrokWithRetries\<close>, then the parser.\<close>

definition grok_request ::
  "(nat \<Rightarrow> thrown + OpenRouterResponse response) \<Rightarrow> (string \<Rightarrow> thrown + 'a) \<Rightarrow> 'a outcome" where
  "grok_request fetch JSON_parse =
     then_do (callGrokWithRetries fetch 3 2000) (\<lambda>response.
     ([], safeParseJsonResponse_grok JSON_parse response))"

definition blocked_by_filter :: string where
  "blocked_by_filter = ''The request was blocked by a content filter. Please modify the input text.''"

definition cut_off :: string where
  "cut_off = ''The response was cut off because it reached the maximum token limit.''"

definition invalid_json :: "thrown \<Rightarrow> thrown" where
  "invalid_json e =
     (if instanceof_Error e
      then Error_obj (''Invalid JSON response from API: ''
             @ (case message_of e of Some m \<Rightarrow> m | None \<Rightarrow> []))
      else Error_obj ''Invalid JSON response from API.'')"

text \<open>\<^verbatim>\<open>safeParseJsonResponse\<close> of the OpenRouter service: it is given the whole reply.\<close>

definition safeParseJsonResponse_openrouter ::
  "runtime \<Rightarrow> (string \<Rightarrow> thrown + 'a) \<Rightarrow> OpenRouterResponse \<Rightarrow> thrown + 'a" where
  "safeParseJsonResponse_openrouter rt JSON_parse apiResponse =
     (let contentString = (case choices apiResponse of [] \<Rightarrow> None | c # cs \<Rightarrow> message_content c);
          finishReason = (case choices apiResponse of [] \<Rightarrow> None | c # cs \<Rightarrow> Some (finish_reason c))
      in case contentString of
           None \<Rightarrow>
             (if finishReason = Some ''content_filter'' then Inl (Error_obj blocked_by_filter)
              else if finishReason = Some ''length'' \<or> finishReason = Some ''max_tokens''
              then Inl (Error_obj cut_off)
              else Inl (Error_obj ''OpenRouter API returned an empty or invalid response.''))
         | Some t \<Rightarrow>
             (if t = [] \<or> trim rt t = [] then
                (if finishReason = Some ''content_filter'' then Inl (Error_obj blocked_by_filter)
                 else if finishReason = Some ''length'' \<or> finishReason = Some ''max_tokens''
                 then Inl (Error_obj cut_off)
                 else Inl (Error_obj ''OpenRouter API returned an empty or invalid response.''))
              else (case JSON_parse t of Inl e \<Rightarrow> Inl (invalid_json e) | Inr v \<Rightarrow> Inr v)))"

text \<open>\<^verbatim>\<open>safeParseJsonResponse\<close> of geminiService.ts, on a \<^verbatim>\<open>GenerateContentResponse\<close>.\<close>

record safetyRating =
  category :: string
  blocked :: bool

record candidate =
  finishReason :: string
  safetyRatings :: "safetyRating list option"

record GenerateContentResponse =
  response_text_g :: "string option"
  candidates :: "candidate list"

definition blocked_by_safety :: "safetyRating list option \<Rightarrow> string" where
  "blocked_by_safety ratings =
     ''The request was blocked by safety settings ''
     @ (case ratings of
          None \<Rightarrow> []
        | Some rs \<Rightarrow> (case find blocked rs of
                       None \<Rightarrow> []
                     | Some blockedRating \<Rightarrow> ''due to '' @ category blockedRating))
     @ ''. Please modify the input text.''"

definition gemini_empty_response :: "GenerateContentResponse \<Rightarrow> thrown" where
  "gemini_empty_response response =
     (case candidates response of
        [] \<Rightarrow> Error_obj ''Gemini API returned an empty or invalid response.''
      | c # cs \<Rightarrow>
          if finishReason c = ''SAFETY'' then Error_obj (blocked_by_safety (safetyRatings c))
          else if finishReason c = ''MAX_TOKENS'' then Error_obj cut_off
          else Error_obj ''Gemini API returned an empty or invalid response.'')"

definition safeParseJsonResponse_gemini ::
  "runtime \<Rightarrow> (string \<Rightarrow> thrown + 'a) \<Rightarrow> GenerateContentResponse \<Rightarrow> thrown + 'a" where
  "safeParseJsonResponse_gemini rt JSON_parse response =
     (case response_text_g response of
        None \<Rightarrow> Inl (gemini_empty_response response)
      | Some responseText \<Rightarrow>
          if responseText = [] \<or> trim rt responseText = [] then Inl (gemini_empty_response response)
          else (case JSON_parse (strip_fence_end (strip_fence_start responseText)) of
                  Inl e \<Rightarrow> Inl (invalid_json e)
                | Inr v \<Rightarrow> Inr v))"

subsection \<open>Observing a run\<close>

text \<open>The session the consumer holds after the events of a run: every progress update is
  merged into it, as \<^verbatim>\<open>handleProgress\<close> does.\<close>

fun apply_event :: "ProcessingState \<Rightarrow> event \<Rightarrow> ProcessingState" where
  "apply_event s (OnProgress u) = merge s u"
| "apply_event s ev = s"

definition session_after :: "ProcessingState \<Rightarrow> event list \<Rightarrow> ProcessingState" where
  "session_after s tr = foldl apply_event s tr"

subsection \<open>Resolving cross-references in the presentation layer\<close>

text \<open>
  \<^verbatim>\<open>content.match(/\[\[(.*?)\]\]/g)\<close>: the matches are found from left to right and do not
  overlap; a match starts at \<^verbatim>\<open>[[\<close> and ends at the first \<^verbatim>\<open>]]\<close> after it, and \<^verbatim>\<open>.\<close> does
  not match a line terminator. \<open>scan_inner\<close> reads on from behind a \<^verbatim>\<open>[[\<close>: the text up to
  the closing \<^verbatim>\<open>]]\<close> and the rest behind it, or nothing if a line ends first.
\<close>

definition is_line_terminator :: "char \<Rightarrow> bool" where
  "is_line_terminator c = (of_char c \<in> {10, 13 :: nat})"

fun scan_inner :: "string \<Rightarrow> (string \<times> string) option" where
  "scan_inner [] = None"
| "scan_inner [c] = None"
| "scan_inner (c # d # cs) =
     (if c = CHR '']'' \<and> d = CHR '']'' then Some ([], cs)
      else if is_line_terminator c then None
      else (case scan_inner (d # cs) of
              None \<Rightarrow> None
            | Some (inner, rest) \<Rightarrow> Some (c # inner, rest)))"

function link_matches :: "string \<Rightarrow> string list" where
  "link_matches [] = []"
| "link_matches [c] = []"
| "link_matches (c # d # cs) =
     (if c = CHR ''['' \<and> d = CHR ''['' then
        (case scan_inner cs of
           Some (inner, rest) \<Rightarrow> (''[['' @ inner @ '']]'') # link_matches rest
         | None \<Rightarrow> link_matches (d # cs))
      else link_matches (d # cs))"
  by pat_completeness auto
termination
proof (relation "measure length")
  have shorter: "length rest < length s" if "scan_inner s = Some (inner, rest)"
    for s inner rest
    using that
    by (induction s arbitrary: inner rest rule: scan_inner.induct)
       (auto split: if_splits option.splits)
  fix c d :: char and cs :: string and x2 inner rest
  assume "c = CHR ''['' \<and> d = CHR ''[''" "scan_inner cs = Some x2" "(inner, rest) = x2"
  then show "(rest, c # d # cs) \<in> measure length"
    using shorter [of cs inner rest] by simp
qed simp_all

declare link_matches.simps [simp del]

text \<open>The graph of \<^verbatim>\<open>NetworkGraph\<close>: \<^verbatim>\<open>new Map(...)\<close> keeps the last entry of a key, and a
  link is pushed when the target id is truthy and not the note's own.\<close>

record D3Node =
  node_id :: string
  node_title :: string

record D3Link =
  link_source :: string
  link_target :: string

definition titleToIdMap :: "runtime \<Rightarrow> Note list \<Rightarrow> (string \<rightharpoonup> string)" where
  "titleToIdMap rt notes =
     map_of (rev (map (\<lambda>note. (toLowerCase rt (trim rt (title note)), id_n note)) notes))"

definition targetTitle :: "runtime \<Rightarrow> string \<Rightarrow> string" where
  "targetTitle rt match = toLowerCase rt (trim rt (substring match 2 (length match - 2)))"

text \<open>The body of \<^verbatim>\<open>notes.forEach\<close> for one note, given the map.\<close>

definition note_links :: "runtime \<Rightarrow> (string \<rightharpoonup> string) \<Rightarrow> Note \<Rightarrow> D3Link list" where
  "note_links rt m note =
     concat (map (\<lambda>match.
        case m (targetTitle rt match) of
          None \<Rightarrow> []
        | Some targetId \<Rightarrow>
            if targetId \<noteq> [] \<and> targetId \<noteq> id_n note
            then [\<lparr>link_source = id_n note, link_target = targetId\<rparr>] else [])
       (link_matches (content note)))"

definition graph_links :: "runtime \<Rightarrow> Note list \<Rightarrow> D3Link list" where
  "graph_links rt notes = concat (map (note_links rt (titleToIdMap rt notes)) notes)"

definition graph_nodes :: "Note list \<Rightarrow> D3Node list" where
  "graph_nodes notes = map (\<lambda>note. \<lparr>node_id = id_n note, node_title = title note\<rparr>) notes"














text \<open>\<^verbatim>\<open>runProcess\<close> of App.tsx: the session is set to processing with its error cleared,
  then every progress update of the run is merged into it.\<close>

definition runProcess :: "env \<Rightarrow> ProcessingState \<Rightarrow> ProcessingState \<Rightarrow> ProcessingState" where
  "runProcess env current stateToProcess =
     session_after (current\<lparr>status := Processing, error := None\<rparr>)
       (fst (processBookWithGrok env stateToProcess))"

section \<open>Properties of runs\<close>

subsection \<open>Events that fail, and what a run may do\<close>

text \<open>What the model answers to a phase call when it throws: \<open>failure_of env ev\<close> is the thrown
  value of the call \<open>ev\<close>, and \<open>None\<close> for a call that returns and for any other event.\<close>

fun failure_of :: "env \<Rightarrow> event \<Rightarrow> thrown option" where
  "failure_of env (ExtractConcepts x) =
     (case extractConcepts_reply env x of Inl e \<Rightarrow> Some e | Inr ts \<Rightarrow> None)"
| "failure_of env (GenerateSingleNoteBody i x t) =
     (case generateSingleNoteBody_reply env i x t of Inl e \<Rightarrow> Some e | Inr b \<Rightarrow> None)"
| "failure_of env (InterlinkNotes req) =
     (case interlinkNotes_reply env req of Inl e \<Rightarrow> Some e | Inr ns \<Rightarrow> None)"
| "failure_of env (InterlinkSingleNote i n ts) =
     (case interlinkSingleNote_reply env i (content n) ts of Inl e \<Rightarrow> Some e | Inr c \<Rightarrow> None)"
| "failure_of env ev = None"

text \<open>\<open>guarded G s tr\<close>: every event of \<open>tr\<close> satisfies \<open>G\<close> in the session that the consumer has
  merged from \<open>s\<close> and the events before it. A run stops at its first failed call; \<open>run_ok\<close>
  collects both, with a postcondition on the value returned and the session merged at the end.\<close>

fun guarded :: "(ProcessingState \<Rightarrow> event \<Rightarrow> bool) \<Rightarrow> ProcessingState \<Rightarrow> event list \<Rightarrow> bool" where
  "guarded G s [] = True"
| "guarded G s (ev # tr) = (G s ev \<and> guarded G (apply_event s ev) tr)"

definition stops_at_failure :: "env \<Rightarrow> 'a outcome \<Rightarrow> bool" where
  "stops_at_failure env m =
     (case snd m of
        Inr x \<Rightarrow> (\<forall>ev \<in> set (fst m). failure_of env ev = None)
      | Inl e \<Rightarrow> (\<exists>tr0 ev. fst m = tr0 @ [ev] \<and> failure_of env ev = Some e
                    \<and> (\<forall>ev' \<in> set tr0. failure_of env ev' = None)))"

definition run_ok ::
  "env \<Rightarrow> (ProcessingState \<Rightarrow> event \<Rightarrow> bool) \<Rightarrow> ('a \<Rightarrow> ProcessingState \<Rightarrow> bool)
     \<Rightarrow> ProcessingState \<Rightarrow> 'a outcome \<Rightarrow> bool" where
  "run_ok env G Q s m =
     (guarded G s (fst m) \<and> stops_at_failure env m
      \<and> (\<forall>x. snd m = Inr x \<longrightarrow> Q x (session_after s (fst m))))"

text \<open>The events a run may produce in a session: the progress updates of the three phases and
  the phase calls with their arguments, each with the condition under which the orchestrators
  make it.\<close>

definition ids_by_index :: "Note list \<Rightarrow> bool" where
  "ids_by_index final = (\<forall>i < length final. id_n (final ! i) = note_id_of i)"

definition update_ok :: "env \<Rightarrow> ProcessingState \<Rightarrow> ProgressUpdate \<Rightarrow> bool" where
  "update_ok env s u \<longleftrightarrow>
     (titles s = [] \<and> u = no_update\<lparr>p_stage := Some ''Phase 1/3: Extracting core concepts...'',
                                      p_status := Some Processing\<rparr>)
   \<or> (\<exists>st. u = progress_stage st)
   \<or> (\<exists>ts. titles s = [] \<and> extractConcepts_reply env (inputText s) = Inr ts
          \<and> u = no_update\<lparr>p_titles := Some ts\<rparr>)
   \<or> (\<exists>body. length (unlinkedNotes s) < length (titles s)
          \<and> generateSingleNoteBody_reply env (length (unlinkedNotes s)) (inputText s)
                (titles s ! length (unlinkedNotes s)) = Inr body
          \<and> u = no_update\<lparr>p_unlinkedNotes :=
                  Some (unlinkedNotes s @ [with_title (titles s ! length (unlinkedNotes s)) body])\<rparr>)
   \<or> (\<exists>final. length (titles s) \<le> length (unlinkedNotes s) \<and> ids_by_index final
          \<and> u = progress_completed final)"

fun protocol :: "service \<Rightarrow> env \<Rightarrow> ProcessingState \<Rightarrow> event \<Rightarrow> bool" where
  "protocol sv env s (OnProgress u) = update_ok env s u"
| "protocol sv env s (ExtractConcepts x) = (titles s = [] \<and> x = inputText s)"
| "protocol sv env s (GenerateSingleNoteBody i x t) =
     (i = length (unlinkedNotes s) \<and> i < length (titles s) \<and> x = inputText s \<and> t = titles s ! i)"
| "protocol sv env s (InterlinkNotes req) =
     (sv \<noteq> OpenRouterService \<and> length (titles s) \<le> length (unlinkedNotes s)
      \<and> req = notesWithTempIds (unlinkedNotes s))"
| "protocol sv env s (InterlinkSingleNote i n ts) =
     (sv = OpenRouterService \<and> length (titles s) \<le> length (unlinkedNotes s)
      \<and> i < length (unlinkedNotes s) \<and> n = unlinkedNotes s ! i
      \<and> ts = otherTitles n (map title (unlinkedNotes s)))"
| "protocol sv env s (Delay ms) = (ms = 1500)"
| "protocol sv env s (ApiCall a) = False"

text \<open>The orchestrator's local \<^verbatim>\<open>state\<close> against the session merged by the consumer, and the
  postconditions of the phases.\<close>

definition in_sync :: "ProcessingState \<Rightarrow> ProcessingState \<Rightarrow> bool" where
  "in_sync state s \<longleftrightarrow> titles s = titles state \<and> inputText s = inputText state
     \<and> unlinkedNotes s = unlinkedNotes state"

definition phase_post :: "ProcessingState \<Rightarrow> ProcessingState \<Rightarrow> ProcessingState \<Rightarrow> bool" where
  "phase_post state st s' \<longleftrightarrow> in_sync st s' \<and> status st = status state
     \<and> finalNotes st = finalNotes state \<and> inputText st = inputText state"

definition loop_sync :: "ProcessingState \<Rightarrow> UnlinkedNote list \<Rightarrow> ProcessingState \<Rightarrow> bool" where
  "loop_sync state unlinked s \<longleftrightarrow> titles s = titles state \<and> inputText s = inputText state
     \<and> unlinkedNotes s = unlinked"

definition phase2_post ::
  "ProcessingState \<Rightarrow> ProcessingState \<times> UnlinkedNote list \<Rightarrow> ProcessingState \<Rightarrow> bool" where
  "phase2_post state = (\<lambda>(st, un) s'. titles st = titles state \<and> inputText st = inputText state
      \<and> status st = status state \<and> finalNotes st = finalNotes state
      \<and> loop_sync state un s' \<and> length (titles state) \<le> length un)"

definition phase3_due :: "ProcessingState \<Rightarrow> bool" where
  "phase3_due s \<longleftrightarrow> status s \<noteq> Completed \<or> finalNotes s = []"

definition pipeline_post :: "ProcessingState \<Rightarrow> Note list \<Rightarrow> ProcessingState \<Rightarrow> bool" where
  "pipeline_post s final s' \<longleftrightarrow>
     (if phase3_due s
      then status s' = Completed \<and> stage s' = [] \<and> finalNotes s' = final \<and> ids_by_index final
      else final = finalNotes s)
     \<and> length (titles s') \<le> length (unlinkedNotes s')"

text \<open>The attempts and waits of a retry wrapper: \<open>retry_trace d first j\<close> is what \<open>j - first\<close>
  rate-limited attempts from number \<open>first\<close> on leave behind.\<close>

definition retry_trace :: "nat \<Rightarrow> nat \<Rightarrow> nat \<Rightarrow> event list" where
  "retry_trace initialDelay first j =
     concat (map (\<lambda>a. [ApiCall a, Delay (initialDelay * 2 ^ a)]) [first..<j])"

fun attempts_of :: "event list \<Rightarrow> nat list" where
  "attempts_of [] = []"
| "attempts_of (ApiCall a # tr) = a # attempts_of tr"
| "attempts_of (ev # tr) = attempts_of tr"

fun delays_of :: "event list \<Rightarrow> nat list" where
  "delays_of [] = []"
| "delays_of (Delay ms # tr) = ms # delays_of tr"
| "delays_of (ev # tr) = delays_of tr"

definition rate_limited :: "(thrown \<Rightarrow> bool) \<Rightarrow> thrown + 'a \<Rightarrow> bool" where
  "rate_limited isRateLimitError reply =
     (case reply of Inl e \<Rightarrow> isRateLimitError e | Inr x \<Rightarrow> False)"




text \<open>The protocol of a whole run, which may end with the error update of the catch block;
  the indices of the generation calls of a trace; a list of indices cut after its first
  element that fails \<open>p\<close>; and the sessions a resumed run can be in.\<close>

definition run_protocol :: "service \<Rightarrow> env \<Rightarrow> ProcessingState \<Rightarrow> event \<Rightarrow> bool" where
  "run_protocol sv env s ev \<longleftrightarrow> protocol sv env s ev \<or> (\<exists>d. ev = OnProgress (progress_error d))"

fun generated_indices :: "event list \<Rightarrow> nat list" where
  "generated_indices [] = []"
| "generated_indices (GenerateSingleNoteBody i x t # tr) = i # generated_indices tr"
| "generated_indices (ev # tr) = generated_indices tr"

definition generation_succeeds :: "env \<Rightarrow> ProcessingState \<Rightarrow> nat \<Rightarrow> bool" where
  "generation_succeeds env s i =
     (case generateSingleNoteBody_reply env i (inputText s) (titles s ! i) of
        Inl e \<Rightarrow> False
      | Inr body \<Rightarrow> True)"

definition up_to_first_failure :: "(nat \<Rightarrow> bool) \<Rightarrow> nat list \<Rightarrow> nat list" where
  "up_to_first_failure p todo = takeWhile p todo @ take 1 (dropWhile p todo)"

definition resumed_from :: "ProcessingState \<Rightarrow> ProcessingState \<Rightarrow> bool" where
  "resumed_from s s' \<longleftrightarrow> titles s' = titles s \<and> inputText s' = inputText s
     \<and> prefix (unlinkedNotes s) (unlinkedNotes s')"

fun is_interlink_call :: "event \<Rightarrow> bool" where
  "is_interlink_call (InterlinkNotes req) = True"
| "is_interlink_call (InterlinkSingleNote i n ts) = True"
| "is_interlink_call ev = False"


subsection \<open>Concrete sessions and replies\<close>

text \<open>A model that answers every request, proposing the same id \<open>x\<close> for every note
  of the batch interlink request, and a fresh session for the text \<open>book\<close>.\<close>

definition reply_body :: "string \<Rightarrow> NoteBody" where
  "reply_body t = \<lparr>body_title = None, body_content = ''About '' @ t, body_quotes = [''q''],
     body_source = ''ch. 1''\<rparr>"

definition replies_ok :: env where
  "replies_ok = \<lparr>extractConcepts_reply = (\<lambda>x. Inr [''A'', ''B'']),
     generateSingleNoteBody_reply = (\<lambda>i x t. Inr (reply_body t)),
     interlinkNotes_reply = (\<lambda>req. Inr (map (\<lambda>n. n\<lparr>id_n := ''x''\<rparr>) req)),
     interlinkSingleNote_reply = (\<lambda>i c ts. Inr (c @ '' [[B]]'')),
     api_error_message = (\<lambda>m. None)\<rparr>"

definition session_new :: ProcessingState where
  "session_new = \<lparr>status = Idle, stage = [], inputText = ''book'', titles = [],
     unlinkedNotes = [], finalNotes = [], error = None\<rparr>"

definition final_AB :: "Note list" where
  "final_AB =
     [\<lparr>title = ''A'', content = ''About A'', quotes = [''q''], source = ''ch. 1'', id_n = ''note_000''\<rparr>,
      \<lparr>title = ''B'', content = ''About B'', quotes = [''q''], source = ''ch. 1'', id_n = ''note_001''\<rparr>]"

definition quota_error :: thrown where
  "quota_error = Error_obj ''RESOURCE_EXHAUSTED''"

definition http_429 :: "OpenRouterResponse response" where
  "http_429 = \<lparr>ok = False, http_status = 429, statusText = ''Too Many Requests'',
     response_text = Inr ''slow down'', response_json = Inl (Error_obj ''not read''),
     json_error_message = None\<rparr>"

definition http_200 :: "string \<Rightarrow> string \<Rightarrow> OpenRouterResponse response" where
  "http_200 c fr = \<lparr>ok = True, http_status = 200, statusText = ''OK'',
     response_text = Inr [],
     response_json = Inr \<lparr>choices = [\<lparr>message_content = Some c, finish_reason = fr\<rparr>]\<rparr>,
     json_error_message = None\<rparr>"

definition quota_then_ok :: "nat \<Rightarrow> nat \<Rightarrow> thrown + string" where
  "quota_then_ok k attempt = (if attempt < k then Inl quota_error else Inr ''reply'')"

definition http_429_then_ok :: "nat \<Rightarrow> nat \<Rightarrow> thrown + OpenRouterResponse response" where
  "http_429_then_ok k attempt =
     (if attempt < k then Inr http_429 else Inr (http_200 ''reply'' ''stop''))"

definition no_stringify :: "thrown \<Rightarrow> string" where
  "no_stringify e = ''{}''"

definition fetch_empty :: "string \<Rightarrow> nat \<Rightarrow> thrown + OpenRouterResponse response" where
  "fetch_empty fr attempt = Inr (http_200 [] fr)"

definition json_rejects_empty :: "string \<Rightarrow> thrown + string list" where
  "json_rejects_empty t =
     (if t = [] then Inl (Error_obj ''Unexpected end of JSON input'') else Inr [t])"

definition empty_reply :: "string \<Rightarrow> OpenRouterResponse" where
  "empty_reply fr = \<lparr>choices = [\<lparr>message_content = Some [], finish_reason = fr\<rparr>]\<rparr>"

definition empty_candidate :: "string \<Rightarrow> GenerateContentResponse" where
  "empty_candidate fr = \<lparr>response_text_g = Some [],
     candidates = [\<lparr>finishReason = fr, safetyRatings = None\<rparr>]\<rparr>"

text \<open>Sessions with the titles \<open>A\<close> and \<open>B\<close>: one stopped by an error after the first note,
  one that has no note yet, one stopped by an error after both notes while it still holds
  the final notes of an earlier book, and the latter when completed.\<close>

definition note_A :: UnlinkedNote where
  "note_A = \<lparr>title = ''A'', content = ''About A'', quotes = [''q''], source = ''ch. 1''\<rparr>"

definition note_B :: UnlinkedNote where
  "note_B = \<lparr>title = ''B'', content = ''About B'', quotes = [''q''], source = ''ch. 1''\<rparr>"

definition session_resume :: ProcessingState where
  "session_resume = \<lparr>status = Error, stage = ''Phase 2/3'', inputText = ''book'',
     titles = [''A'', ''B''], unlinkedNotes = [note_A], finalNotes = [], error = Some ''boom''\<rparr>"

definition session_titled :: ProcessingState where
  "session_titled = session_new\<lparr>titles := [''A'', ''B'']\<rparr>"

definition final_old :: "Note list" where
  "final_old =
     [\<lparr>title = ''Z'', content = ''About Z'', quotes = [], source = ''ch. 9'', id_n = ''note_000''\<rparr>]"

definition session_interrupted :: ProcessingState where
  "session_interrupted = session_resume\<lparr>unlinkedNotes := [note_A, note_B], finalNotes := final_old\<rparr>"

definition session_done :: ProcessingState where
  "session_done = session_interrupted\<lparr>status := Completed, stage := [], error := None\<rparr>"


definition replies_failing :: "thrown \<Rightarrow> env" where
  "replies_failing e = replies_ok\<lparr>generateSingleNoteBody_reply := (\<lambda>i x t. Inl e)\<rparr>"

definition fetch_failing :: "thrown \<Rightarrow> nat \<Rightarrow> thrown + OpenRouterResponse response" where
  "fetch_failing e attempt = Inl e"

text \<open>Final notes in which \<open>A\<close> refers to itself, to \<open>B\<close> and to a title \<open>C\<close> that no note has,
  and the application showing them.\<close>

definition linked_AB :: "Note list" where
  "linked_AB =
     [\<lparr>title = ''A'', content = ''See [[ b ]], [[A]] and [[C]].'', quotes = [''q''],
        source = ''ch. 1'', id_n = ''note_000''\<rparr>,
      \<lparr>title = ''B'', content = ''About B'', quotes = [''q''], source = ''ch. 1'',
        id_n = ''note_001''\<rparr>]"


text \<open>The runtime on Latin-1 text: \<^verbatim>\<open>trim\<close> strips white space and line terminators from
  both ends, and \<^verbatim>\<open>toLowerCase\<close> maps \<open>A\<close> to \<open>Z\<close> and the capital letters U+00C0 to U+00DE
  other than the multiplication sign U+00D7 to the letter 32 places on.\<close>

definition latin1_trim :: "string \<Rightarrow> string" where
  "latin1_trim s = rev (dropWhile is_space (rev (dropWhile is_space s)))"

definition latin1_lower :: "char \<Rightarrow> char" where
  "latin1_lower c =
     (let n = of_char c :: nat
      in if (65 \<le> n \<and> n \<le> 90) \<or> (192 \<le> n \<and> n \<le> 222 \<and> n \<noteq> 215) then char_of (n + 32)
         else c)"

definition latin1 :: runtime where
  "latin1 = \<lparr>trim = latin1_trim, toLowerCase = map latin1_lower\<rparr>"



subsection \<open>Every run follows the protocol\<close>

lemma session_after_Nil [simp]: "session_after s [] = s"
  by (simp add: session_after_def)

lemma session_after_Cons [simp]: "session_after s (ev # tr) = session_after (apply_event s ev) tr"
  by (simp add: session_after_def)

lemma session_after_append: "session_after s (a @ b) = session_after (session_after s a) b"
  by (simp add: session_after_def)

lemma guarded_append: "guarded G s (a @ b) = (guarded G s a \<and> guarded G (session_after s a) b)"
  by (induction a arbitrary: s) auto

lemma run_ok_returns: "Q x s \<Longrightarrow> run_ok env G Q s (returns x)"
  by (simp add: run_ok_def returns_def stops_at_failure_def)

lemma run_ok_onProgress:
  "G s (OnProgress u) \<Longrightarrow> Q () (merge s u) \<Longrightarrow> run_ok env G Q s (onProgress u)"
  by (simp add: run_ok_def onProgress_def stops_at_failure_def)

lemma run_ok_delay: "G s (Delay ms) \<Longrightarrow> Q () s \<Longrightarrow> run_ok env G Q s (delay ms)"
  by (simp add: run_ok_def delay_def stops_at_failure_def)

lemma run_ok_then_do:
  assumes m: "run_ok env G Q' s m"
    and f: "\<And>x s'. Q' x s' \<Longrightarrow> run_ok env G Q s' (f x)"
  shows "run_ok env G Q s (then_do m f)"
proof (cases m)
  case (Pair evs r)
  show ?thesis
  proof (cases r)
    case (Inl e)
    with Pair m show ?thesis by (simp add: run_ok_def stops_at_failure_def)
  next
    case (Inr x)
    obtain evs' r' where fx: "f x = (evs', r')" by (cases "f x")
    from Pair Inr m have q: "Q' x (session_after s evs)" and g: "guarded G s evs"
      and nf: "\<forall>ev \<in> set evs. failure_of env ev = None"
      by (simp_all add: run_ok_def stops_at_failure_def)
    from f [OF q] fx have g': "guarded G (session_after s evs) evs'"
      and sf: "stops_at_failure env (evs', r')"
      and q': "\<forall>y. r' = Inr y \<longrightarrow> Q y (session_after (session_after s evs) evs')"
      by (simp_all add: run_ok_def)
    have "stops_at_failure env (evs @ evs', r')"
    proof (cases r')
      case (Inl e)
      with sf obtain tr0 ev where "evs' = tr0 @ [ev]" "failure_of env ev = Some e"
        "\<forall>ev' \<in> set tr0. failure_of env ev' = None"
        by (auto simp: stops_at_failure_def)
      with nf Inl show ?thesis
        by (auto simp: stops_at_failure_def intro!: exI [of _ "evs @ tr0"])
    next
      case (Inr y)
      with sf nf show ?thesis by (auto simp: stops_at_failure_def)
    qed
    with Pair Inr fx g g' q' show ?thesis
      by (simp add: run_ok_def guarded_append session_after_append)
  qed
qed

lemma run_ok_weaken:
  "run_ok env G Q s m \<Longrightarrow> (\<And>x s'. Q x s' \<Longrightarrow> Q' x s') \<Longrightarrow> run_ok env G Q' s m"
  by (auto simp: run_ok_def)

lemma run_ok_await:
  assumes "G s ev" and "apply_event s ev = s"
    and "failure_of env ev = (case reply of Inl e \<Rightarrow> Some e | Inr x \<Rightarrow> None)"
    and "\<And>x. reply = Inr x \<Longrightarrow> Q x s"
  shows "run_ok env G Q s (await ev reply)"
  using assms by (cases reply) (simp_all add: run_ok_def await_def stops_at_failure_def)

lemma merge_fields [simp]:
  "status (merge s u) = (case p_status u of None \<Rightarrow> status s | Some v \<Rightarrow> v)"
  "stage (merge s u) = (case p_stage u of None \<Rightarrow> stage s | Some v \<Rightarrow> v)"
  "inputText (merge s u) = inputText s"
  "titles (merge s u) = (case p_titles u of None \<Rightarrow> titles s | Some v \<Rightarrow> v)"
  "unlinkedNotes (merge s u) = (case p_unlinkedNotes u of None \<Rightarrow> unlinkedNotes s | Some v \<Rightarrow> v)"
  "finalNotes (merge s u) = (case p_finalNotes u of None \<Rightarrow> finalNotes s | Some v \<Rightarrow> v)"
  "error (merge s u) = (case p_error u of None \<Rightarrow> error s | Some v \<Rightarrow> v)"
  by (simp_all add: merge_def)

lemma phase1_ok:
  assumes "in_sync state s"
  shows "run_ok env (protocol sv env)
           (\<lambda>st s'. phase_post state st s' \<and> (titles state \<noteq> [] \<longrightarrow> st = state \<and> s' = s))
           s (phase1 env state)"
proof (cases "titles state = []")
  case False
  with assms show ?thesis by (simp add: phase1_def run_ok_returns phase_post_def)
next
  case True
  let ?Q1 = "\<lambda>(_::unit) s'. in_sync state s'"
  have "run_ok env (protocol sv env) ?Q1 s
          (onProgress (no_update\<lparr>p_stage := Some ''Phase 1/3: Extracting core concepts...'',
                                  p_status := Some Processing\<rparr>))"
    using assms True
    by (intro run_ok_onProgress) (simp_all add: update_ok_def in_sync_def no_update_def)
  moreover have "run_ok env (protocol sv env)
           (\<lambda>st s'. phase_post state st s' \<and> (titles state \<noteq> [] \<longrightarrow> st = state \<and> s' = s)) s'
          (then_do (extractConcepts env (inputText state)) (\<lambda>titles'.
           then_do (onProgress (no_update\<lparr>p_titles := Some titles'\<rparr>)) (\<lambda>_.
           returns (state\<lparr>titles := titles'\<rparr>))))" if "in_sync state s'" for s'
  proof (rule run_ok_then_do [where Q' = "\<lambda>ts s''. s'' = s' \<and> extractConcepts_reply env (inputText state) = Inr ts"])
    show "run_ok env (protocol sv env)
       (\<lambda>ts s''. s'' = s' \<and> extractConcepts_reply env (inputText state) = Inr ts)
       s' (extractConcepts env (inputText state))"
      unfolding extractConcepts_def using that True
      by (intro run_ok_await) (auto simp: in_sync_def split: sum.splits)
  next
    fix ts s''
    assume "s'' = s' \<and> extractConcepts_reply env (inputText state) = Inr ts"
    then show "run_ok env (protocol sv env)
           (\<lambda>st s'. phase_post state st s' \<and> (titles state \<noteq> [] \<longrightarrow> st = state \<and> s' = s)) s''
          (then_do (onProgress (no_update\<lparr>p_titles := Some ts\<rparr>)) (\<lambda>_.
           returns (state\<lparr>titles := ts\<rparr>)))"
      using that True
      by (intro run_ok_then_do [where Q' = "\<lambda>_ s3. in_sync (state\<lparr>titles := ts\<rparr>) s3"]
            run_ok_onProgress run_ok_returns)
         (auto simp: update_ok_def in_sync_def no_update_def phase_post_def)
  qed
  ultimately show ?thesis
    using True by (simp add: phase1_def) (rule run_ok_then_do, assumption, simp)
qed

lemma phase2_loop_ok:
  "loop_sync state unlinked s \<Longrightarrow> length unlinked = i \<Longrightarrow>
   run_ok env (protocol sv env) (phase2_post state) s (phase2_loop env state unlinked i)"
proof (induction env state unlinked i arbitrary: s rule: phase2_loop.induct)
  case (1 env state unlinked i)
  let ?n = "length (titles state)"
  let ?t = "titles state ! i"
  show ?case
  proof (cases "i < ?n")
    case False
    with "1.prems" show ?thesis
      by (subst phase2_loop.simps) (simp add: run_ok_returns phase2_post_def)
  next
    case True
    have stage: "run_ok env (protocol sv env) (\<lambda>_ s'. loop_sync state unlinked s') s
       (onProgress (progress_stage (phase2_stage i ?n ?t)))"
      using "1.prems"
      by (intro run_ok_onProgress)
         (auto simp: update_ok_def loop_sync_def progress_stage_def no_update_def)
    have gen: "run_ok env (protocol sv env)
       (\<lambda>body s'. loop_sync state unlinked s'
           \<and> generateSingleNoteBody_reply env i (inputText state) ?t = Inr body) s'
       (generateSingleNoteBody env i (inputText state) ?t)"
      if "loop_sync state unlinked s'" for s'
      unfolding generateSingleNoteBody_def using that True "1.prems"
      by (intro run_ok_await) (auto simp: loop_sync_def split: sum.splits)
    have upd: "run_ok env (protocol sv env)
       (\<lambda>_ s''. loop_sync state (unlinked @ [with_title ?t body]) s'') s'
       (onProgress (no_update\<lparr>p_unlinkedNotes := Some (unlinked @ [with_title ?t body])\<rparr>))"
      if "loop_sync state unlinked s'"
        and "generateSingleNoteBody_reply env i (inputText state) ?t = Inr body" for s' body
      using that True "1.prems"
      by (intro run_ok_onProgress)
         (auto simp: update_ok_def loop_sync_def no_update_def)
    have dly: "run_ok env (protocol sv env) (\<lambda>_ s''. loop_sync state un s'') s'
       (if i < ?n - 1 then delay 1500 else returns ())"
      if "loop_sync state un s'" for s' un
      using that by (auto intro: run_ok_delay run_ok_returns)
    have rec: "run_ok env (protocol sv env) (phase2_post state) s'
       (phase2_loop env (state\<lparr>unlinkedNotes := unlinked @ [with_title ?t body]\<rparr>)
          (unlinked @ [with_title ?t body]) (i + 1))"
      if "loop_sync state (unlinked @ [with_title ?t body]) s'" for s' body
    proof -
      have "run_ok env (protocol sv env)
          (phase2_post (state\<lparr>unlinkedNotes := unlinked @ [with_title ?t body]\<rparr>)) s'
          (phase2_loop env (state\<lparr>unlinkedNotes := unlinked @ [with_title ?t body]\<rparr>)
             (unlinked @ [with_title ?t body]) (i + 1))"
        using that "1.prems" True
        by (intro "1.IH") (simp_all add: loop_sync_def)
      then show ?thesis by (simp add: phase2_post_def loop_sync_def)
    qed
    show ?thesis
      apply (subst phase2_loop.simps)
      apply (simp only: True if_True)
      apply (rule run_ok_then_do [OF stage])
      apply (rule run_ok_then_do [OF gen], assumption)
      apply (rule run_ok_then_do [OF upd], (erule conjE, assumption)+)
      apply (erule conjE)
      apply (rule run_ok_then_do [OF dly], assumption)
      apply (rule rec, assumption)
      done
  qed
qed

lemma phase2_ok:
  assumes "in_sync state s"
  shows "run_ok env (protocol sv env)
           (\<lambda>st s'. phase_post state st s' \<and> titles st = titles state
                \<and> length (titles st) \<le> length (unlinkedNotes st)
                \<and> (length (titles state) \<le> length (unlinkedNotes state) \<longrightarrow> st = state \<and> s' = s))
           s (phase2 env state)"
proof (cases "length (unlinkedNotes state) < length (titles state)")
  case False
  with assms show ?thesis
    by (simp add: phase2_def returns_def run_ok_def stops_at_failure_def phase_post_def)
next
  case True
  have "run_ok env (protocol sv env) (phase2_post state) s
          (phase2_loop env state (unlinkedNotes state) (length (unlinkedNotes state)))"
    using assms by (intro phase2_loop_ok) (simp_all add: loop_sync_def in_sync_def)
  then show ?thesis
    unfolding phase2_def using True
    apply (simp only: if_True)
    apply (erule run_ok_then_do)
    apply (auto simp: phase2_post_def loop_sync_def in_sync_def phase_post_def
              intro!: run_ok_returns)
    done
qed

lemma ids_by_index_reassign_ids: "ids_by_index (reassign_ids linkedNotes)"
  by (simp add: ids_by_index_def reassign_ids_def nth_enumerate_eq)

lemma ids_by_index_snoc:
  "ids_by_index final \<Longrightarrow> id_n x = note_id_of (length final) \<Longrightarrow> ids_by_index (final @ [x])"
  by (auto simp: ids_by_index_def nth_append less_Suc_eq)

lemma interlink_loop_ok:
  "in_sync state s \<Longrightarrow> length (titles state) \<le> length (unlinkedNotes state) \<Longrightarrow>
   ids_by_index final \<Longrightarrow> length final = i \<Longrightarrow> allNoteTitles = map title (unlinkedNotes state) \<Longrightarrow>
   run_ok env (protocol OpenRouterService env) (\<lambda>fn s'. ids_by_index fn \<and> in_sync state s') s
     (interlink_loop env state allNoteTitles final i)"
proof (induction env state allNoteTitles final i arbitrary: s rule: interlink_loop.induct)
  case (1 env state allNoteTitles final i)
  let ?n = "length (unlinkedNotes state)"
  let ?note = "unlinkedNotes state ! i"
  let ?G = "protocol OpenRouterService env"
  show ?case
  proof (cases "i < ?n")
    case False
    with "1.prems" show ?thesis
      by (subst interlink_loop.simps) (simp add: run_ok_returns)
  next
    case True
    have stage: "run_ok env ?G (\<lambda>_ s'. in_sync state s') s
       (onProgress (progress_stage (phase3_stage i ?n (title ?note))))"
      using "1.prems"
      by (intro run_ok_onProgress)
         (auto simp: update_ok_def in_sync_def progress_stage_def no_update_def)
    have call: "run_ok env ?G (\<lambda>c s'. in_sync state s') s'
       (interlinkSingleNote env i ?note allNoteTitles)"
      if "in_sync state s'" for s'
      unfolding interlinkSingleNote_def using that True "1.prems"
      by (intro run_ok_await) (auto simp: in_sync_def split: sum.splits)
    have dly: "run_ok env ?G (\<lambda>_ s''. in_sync state s'') s'
       (if i < ?n - 1 then delay 1500 else returns ())"
      if "in_sync state s'" for s'
      using that by (auto intro: run_ok_delay run_ok_returns)
    have rec: "run_ok env ?G (\<lambda>fn s'. ids_by_index fn \<and> in_sync state s') s'
       (interlink_loop env state allNoteTitles
          (final @ [(with_id ?note (note_id_of i))\<lparr>content := c\<rparr>]) (i + 1))"
      if "in_sync state s'" for s' c
      using that "1.prems" True
      by (intro "1.IH") (simp_all add: ids_by_index_snoc with_id_def)
    show ?thesis
      apply (subst interlink_loop.simps)
      apply (simp only: True if_True)
      apply (rule run_ok_then_do [OF stage])
      apply (rule run_ok_then_do [OF call], assumption)
      apply (rule run_ok_then_do [OF dly], assumption)
      apply (rule rec, assumption)
      done
  qed
qed

lemma phase3_ok:
  assumes "in_sync state s" and "length (titles state) \<le> length (unlinkedNotes state)"
  shows "run_ok env (protocol sv env) (\<lambda>fn s'. ids_by_index fn \<and> in_sync state s') s
           (phase3 sv env state)"
proof -
  have stage: "run_ok env (protocol sv env) (\<lambda>_ s'. in_sync state s') s
       (onProgress (progress_stage ''Phase 3/3: Weaving the knowledge graph...''))"
    using assms
    by (intro run_ok_onProgress)
       (auto simp: update_ok_def in_sync_def progress_stage_def no_update_def)
  have call: "run_ok env (protocol sv env) (\<lambda>linked s''. in_sync state s'') s'
       (await (InterlinkNotes (notesWithTempIds (unlinkedNotes state)))
          (interlinkNotes_reply env (notesWithTempIds (unlinkedNotes state))))"
    if "in_sync state s'" "sv \<noteq> OpenRouterService" for s'
    using that assms
    by (intro run_ok_await) (auto simp: in_sync_def split: sum.splits)
  show ?thesis
  proof (cases sv)
    case GrokService
    have "run_ok env (protocol sv env) (\<lambda>fn s'. ids_by_index fn \<and> in_sync state s') s
       (then_do (onProgress (progress_stage ''Phase 3/3: Weaving the knowledge graph...''))
          (\<lambda>_. interlinkNotes_grok env (unlinkedNotes state)))"
      unfolding interlinkNotes_grok_def
      apply (rule run_ok_then_do [OF stage])
      apply (rule run_ok_then_do [OF call], assumption, simp add: GrokService)
      apply (rule run_ok_returns)
      apply (simp add: ids_by_index_reassign_ids)
      done
    then show ?thesis using GrokService by simp
  next
    case GeminiService
    have "run_ok env (protocol sv env) (\<lambda>fn s'. ids_by_index fn \<and> in_sync state s') s
       (then_do (onProgress (progress_stage ''Phase 3/3: Weaving the knowledge graph...''))
          (\<lambda>_. then_do (interlinkNotes_gemini env (unlinkedNotes state))
                 (\<lambda>linkedNotesWithIds. returns (reassign_ids linkedNotesWithIds))))"
      unfolding interlinkNotes_gemini_def
      apply (rule run_ok_then_do [OF stage])
      apply (rule run_ok_then_do [OF call], assumption, simp add: GeminiService)
      apply (rule run_ok_returns)
      apply (simp add: ids_by_index_reassign_ids)
      done
    then show ?thesis using GeminiService by simp
  next
    case OpenRouterService
    have "run_ok env (protocol OpenRouterService env)
        (\<lambda>fn s'. ids_by_index fn \<and> in_sync state s') s
        (interlink_loop env state (map title (unlinkedNotes state)) [] 0)"
      using assms by (intro interlink_loop_ok) (simp_all add: ids_by_index_def)
    then show ?thesis using OpenRouterService by simp
  qed
qed

lemma pipeline_ok:
  "run_ok env (protocol sv env) (pipeline_post s) s (pipeline sv env s)"
proof -
  let ?G = "protocol sv env"
  have p1: "run_ok env ?G (\<lambda>st s'. phase_post s st s') s (phase1 env s)"
    by (rule run_ok_weaken [OF phase1_ok [of s s]])
       (auto simp: in_sync_def)
  have p2: "run_ok env ?G
      (\<lambda>st2 s2. phase_post s st2 s2 \<and> length (titles st2) \<le> length (unlinkedNotes st2)) s1
      (phase2 env st1)" if "phase_post s st1 s1" for st1 s1
    using that
    by (intro run_ok_weaken [OF phase2_ok [of st1 s1]])
       (auto simp: phase_post_def in_sync_def)
  have p3: "run_ok env ?G (pipeline_post s) s2
      (if status st2 \<noteq> Completed \<or> length (finalNotes st2) = 0 then
         then_do (phase3 sv env st2) (\<lambda>final.
         then_do (onProgress (progress_completed final)) (\<lambda>_. returns final))
       else returns (finalNotes st2))"
    if "phase_post s st2 s2 \<and> length (titles st2) \<le> length (unlinkedNotes st2)" for st2 s2
  proof (cases "phase3_due s")
    case False
    with that show ?thesis
      by (auto simp: phase3_due_def phase_post_def in_sync_def pipeline_post_def
            intro!: run_ok_returns)
  next
    case True
    from that have sync: "in_sync st2 s2" and len: "length (titles st2) \<le> length (unlinkedNotes st2)"
      by (simp_all add: phase_post_def)
    have fin: "run_ok env ?G (pipeline_post s) s3
        (then_do (onProgress (progress_completed final)) (\<lambda>_. returns final))"
      if "ids_by_index final \<and> in_sync st2 s3" for final s3
      using that len True
      apply (intro run_ok_then_do [where Q' = "\<lambda>_ s4. pipeline_post s final s4"]
                   run_ok_onProgress run_ok_returns)
        apply (auto simp: update_ok_def in_sync_def pipeline_post_def progress_completed_def
                  no_update_def)
      done
    from True that show ?thesis
      apply (simp add: phase3_due_def phase_post_def)
      apply (rule run_ok_then_do [OF phase3_ok [OF sync len]])
      apply (erule fin)
      done
  qed
  show ?thesis
    unfolding pipeline_def
    apply (rule run_ok_then_do [OF p1])
    apply (rule run_ok_then_do [OF p2], assumption)
    apply (erule p3)
    done
qed

subsection \<open>Facts about the events of a run\<close>

lemma guarded_finalNotes:
  "guarded (protocol sv env) s tr \<Longrightarrow> OnProgress u \<in> set tr \<Longrightarrow> p_finalNotes u = Some final
     \<Longrightarrow> ids_by_index final"
proof (induction tr arbitrary: s)
  case Nil
  then show ?case by simp
next
  case (Cons ev tr)
  show ?case
  proof (cases "ev = OnProgress u")
    case True
    with Cons.prems have "update_ok env s u" by simp
    with Cons.prems(3) show ?thesis
      by (auto simp: update_ok_def no_update_def progress_stage_def progress_completed_def)
  next
    case False
    with Cons show ?thesis by auto
  qed
qed

lemma processBook_cases:
  obtains (returned) final where "snd (pipeline sv env s) = Inr final"
      "processBook sv env s = pipeline sv env s"
  | (failed) e where "snd (pipeline sv env s) = Inl e"
      "processBook sv env s =
         (fst (pipeline sv env s) @ [OnProgress (progress_error (descriptiveError sv env e))],
          Inl (Error_obj (failure_prefix sv @ descriptiveError sv env e)))"
proof (cases "pipeline sv env s")
  case (Pair evs r)
  show ?thesis
  proof (cases r)
    case (Inl e)
    with Pair have "processBook sv env s =
         (fst (pipeline sv env s) @ [OnProgress (progress_error (descriptiveError sv env e))],
          Inl (Error_obj (failure_prefix sv @ descriptiveError sv env e)))"
      by (simp add: processBook_def onProgress_def throws_def)
    with Pair Inl show ?thesis by (intro failed [of e]) simp_all
  next
    case (Inr final)
    with Pair show ?thesis by (intro returned [of final]) (simp_all add: processBook_def)
  qed
qed


lemma fst_then_do:
  "fst (then_do m f) = fst m @ (case snd m of Inl e \<Rightarrow> [] | Inr x \<Rightarrow> fst (f x))"
  by (cases m; cases "snd m") (auto split: prod.splits)

lemma snd_then_do:
  "snd (then_do m f) = (case snd m of Inl e \<Rightarrow> Inl e | Inr x \<Rightarrow> snd (f x))"
  by (cases m; cases "snd m") (auto split: prod.splits)

lemma guarded_weaken:
  "guarded G s tr \<Longrightarrow> (\<And>s ev. G s ev \<Longrightarrow> G' s ev) \<Longrightarrow> guarded G' s tr"
  by (induction tr arbitrary: s) auto

lemma guarded_mem: "guarded G s tr \<Longrightarrow> ev \<in> set tr \<Longrightarrow> \<exists>s'. G s' ev"
  by (induction tr arbitrary: s) auto


lemma guarded_relation:
  assumes "guarded G s tr"
    and step: "\<And>s ev. G s ev \<Longrightarrow> R s (apply_event s ev)"
    and refl: "\<And>s. R s s" and trans: "\<And>a b c. R a b \<Longrightarrow> R b c \<Longrightarrow> R a c"
  shows "R s (session_after s tr)"
  using assms(1)
proof (induction tr arbitrary: s)
  case Nil
  then show ?case by (simp add: refl)
next
  case (Cons ev tr)
  then have "R s (apply_event s ev)" "R (apply_event s ev) (session_after (apply_event s ev) tr)"
    by (auto intro: step)
  then show ?case by (auto intro: trans)
qed

lemma processBook_guarded: "guarded (run_protocol sv env) s (fst (processBook sv env s))"
proof -
  have ok: "guarded (run_protocol sv env) s (fst (pipeline sv env s))"
    using pipeline_ok [of env sv s]
    by (auto simp: run_ok_def run_protocol_def intro: guarded_weaken)
  show ?thesis
  proof (cases rule: processBook_cases [of sv env s])
    case (returned final)
    with ok show ?thesis by simp
  next
    case (failed e)
    with ok show ?thesis by (auto simp: guarded_append run_protocol_def)
  qed
qed

lemma apply_event_inputText [simp]: "inputText (apply_event s ev) = inputText s"
  by (cases ev) simp_all

lemma run_protocol_prefix:
  "run_protocol sv env s ev \<Longrightarrow> prefix (unlinkedNotes s) (unlinkedNotes (apply_event s ev))"
  by (cases ev)
     (auto simp: run_protocol_def update_ok_def no_update_def progress_stage_def
        progress_completed_def progress_error_def)


lemma run_protocol_titles:
  "titles s \<noteq> [] \<Longrightarrow> run_protocol sv env s ev \<Longrightarrow>
     titles (apply_event s ev) = titles s \<and> (\<forall>x. ev \<noteq> ExtractConcepts x)
     \<and> (\<forall>u. ev = OnProgress u \<longrightarrow> p_titles u = None)"
  by (cases ev)
     (auto simp: run_protocol_def update_ok_def no_update_def progress_stage_def
        progress_completed_def progress_error_def)

lemma protocol_error: "protocol sv env s ev \<Longrightarrow> error (apply_event s ev) = error s"
  by (cases ev)
     (auto simp: update_ok_def no_update_def progress_stage_def progress_completed_def)


lemma generated_indices_append:
  "generated_indices (xs @ ys) = generated_indices xs @ generated_indices ys"
  by (induction xs rule: generated_indices.induct) simp_all

lemma up_to_first_failure_Cons:
  "up_to_first_failure p (i # todo) = i # (if p i then up_to_first_failure p todo else [])"
  by (simp add: up_to_first_failure_def)

lemma up_to_first_failure_all:
  "\<forall>i \<in> set todo. p i \<Longrightarrow> up_to_first_failure p todo = todo"
  by (induction todo) (simp_all add: up_to_first_failure_def)

lemma outcome_simps:
  "fst (returns x) = []" "snd (returns x) = Inr x"
  "fst (throws e) = []" "snd (throws e) = Inl e"
  "fst (onProgress u) = [OnProgress u]" "snd (onProgress u) = Inr ()"
  "fst (delay ms) = [Delay ms]" "snd (delay ms) = Inr ()"
  "fst (await ev reply) = [ev]" "snd (await ev reply) = reply"
  by (simp_all add: returns_def throws_def onProgress_def delay_def await_def)

lemma phase2_loop_calls:
  "generated_indices (fst (phase2_loop env state unlinked i))
     = up_to_first_failure (generation_succeeds env state) [i..<length (titles state)]"
proof (induction env state unlinked i rule: phase2_loop.induct)
  case (1 env state unlinked i)
  let ?n = "length (titles state)"
  let ?t = "titles state ! i"
  show ?case
  proof (cases "i < ?n")
    case False
    then show ?thesis
      by (subst phase2_loop.simps) (simp add: outcome_simps up_to_first_failure_def)
  next
    case True
    then have todo: "[i..<?n] = i # [Suc i..<?n]" by (simp add: upt_conv_Cons)
    show ?thesis
    proof (cases "generateSingleNoteBody_reply env i (inputText state) ?t")
      case (Inl e)
      with True show ?thesis
        by (subst phase2_loop.simps)
           (simp add: todo up_to_first_failure_Cons generation_succeeds_def fst_then_do
              snd_then_do outcome_simps generateSingleNoteBody_def)
    next
      case (Inr body)
      let ?state' = "state\<lparr>unlinkedNotes := unlinked @ [with_title ?t body]\<rparr>"
      have same: "generation_succeeds env ?state' = generation_succeeds env state"
        by (simp add: generation_succeeds_def fun_eq_iff)
      have "generated_indices (fst (phase2_loop env ?state' (unlinked @ [with_title ?t body]) (i + 1)))
          = up_to_first_failure (generation_succeeds env state) [Suc i..<?n]"
        using "1.IH" True same by auto
      with True Inr show ?thesis
        by (subst phase2_loop.simps)
           (simp add: todo up_to_first_failure_Cons generation_succeeds_def fst_then_do
              snd_then_do outcome_simps generateSingleNoteBody_def generated_indices_append)
    qed
  qed
qed

lemma guarded_no_generation:
  "guarded (run_protocol sv env) s tr \<Longrightarrow> titles s \<noteq> [] \<Longrightarrow>
   length (titles s) \<le> length (unlinkedNotes s) \<Longrightarrow> generated_indices tr = []"
proof (induction tr arbitrary: s)
  case Nil
  then show ?case by simp
next
  case (Cons ev tr)
  from Cons.prems have ev: "run_protocol sv env s ev" by simp
  with Cons.prems have "titles (apply_event s ev) = titles s"
    by (simp add: run_protocol_titles)
  moreover from ev Cons.prems have "unlinkedNotes (apply_event s ev) = unlinkedNotes s"
    by (cases ev)
       (auto simp: run_protocol_def update_ok_def no_update_def progress_stage_def
          progress_completed_def progress_error_def)
  ultimately have "generated_indices tr = []"
    using Cons.prems by (intro Cons.IH [of "apply_event s ev"]) simp_all
  moreover from ev Cons.prems have "\<forall>i x t. ev \<noteq> GenerateSingleNoteBody i x t"
    by (auto simp: run_protocol_def)
  ultimately show ?case by (cases ev) simp_all
qed

lemma then_do_returns [simp]: "then_do (returns x) f = f x"
  by (cases "f x") (simp add: returns_def)

lemma guarded_mem_invariant:
  assumes "guarded G s tr" and "I s" and "ev \<in> set tr"
    and step: "\<And>s ev. I s \<Longrightarrow> G s ev \<Longrightarrow> I (apply_event s ev)"
  shows "\<exists>s'. I s' \<and> G s' ev"
  using assms(1,2,3)
proof (induction tr arbitrary: s)
  case Nil
  then show ?case by simp
next
  case (Cons a tr)
  show ?case
  proof (cases "ev = a")
    case True
    with Cons.prems show ?thesis by auto
  next
    case False
    with Cons.prems have "guarded G (apply_event s a) tr" "I (apply_event s a)" "ev \<in> set tr"
      by (auto intro: step)
    then show ?thesis by (rule Cons.IH)
  qed
qed

lemma resumed_from_step:
  "titles s \<noteq> [] \<Longrightarrow> resumed_from s s' \<Longrightarrow> run_protocol sv env s' ev \<Longrightarrow>
     resumed_from s (apply_event s' ev)"
  using run_protocol_titles [of s' sv env ev] run_protocol_prefix [of sv env s' ev]
  by (auto simp: resumed_from_def)

lemma resumed_event:
  assumes "processBook sv env s = (tr, r)" and "titles s \<noteq> []" and "ev \<in> set tr"
  obtains s' where "resumed_from s s'" "run_protocol sv env s' ev"
proof -
  have "guarded (run_protocol sv env) s tr"
    using processBook_guarded [of sv env s] assms(1) by simp
  moreover have "resumed_from s s" by (simp add: resumed_from_def)
  ultimately have "\<exists>s'. resumed_from s s' \<and> run_protocol sv env s' ev"
    using assms(3)
    by (rule guarded_mem_invariant) (rule resumed_from_step [OF assms(2)])
  with that show ?thesis by blast
qed

lemma phase2_calls:
  "generated_indices (fst (phase2 env s))
     = up_to_first_failure (generation_succeeds env s)
         [length (unlinkedNotes s)..<length (titles s)]"
proof (cases "length (unlinkedNotes s) < length (titles s)")
  case True
  have "generated_indices (case snd (phase2_loop env s (unlinkedNotes s) (length (unlinkedNotes s))) of
      Inl e \<Rightarrow> []
    | Inr x \<Rightarrow> fst (case x of (state', unlinked) \<Rightarrow> returns (state'\<lparr>unlinkedNotes := unlinked\<rparr>)))
      = []"
    by (simp add: outcome_simps split: sum.splits prod.splits)
  with True show ?thesis
    by (simp add: phase2_def fst_then_do generated_indices_append phase2_loop_calls)
next
  case False
  then show ?thesis
    by (simp add: phase2_def outcome_simps up_to_first_failure_def)
qed

lemma pipeline_calls:
  assumes "titles s \<noteq> []"
  shows "generated_indices (fst (pipeline sv env s))
     = up_to_first_failure (generation_succeeds env s)
         [length (unlinkedNotes s)..<length (titles s)]"
proof -
  let ?rest = "\<lambda>state2. if status state2 \<noteq> Completed \<or> length (finalNotes state2) = 0 then
       then_do (phase3 sv env state2) (\<lambda>final.
       then_do (onProgress (progress_completed final)) (\<lambda>_. returns final))
     else returns (finalNotes state2)"
  have eq: "pipeline sv env s = then_do (phase2 env s) ?rest"
    using assms by (simp add: pipeline_def phase1_def)
  have "generated_indices (case snd (phase2 env s) of Inl e \<Rightarrow> [] | Inr x \<Rightarrow> fst (?rest x)) = []"
  proof (cases "snd (phase2 env s)")
    case (Inl e)
    then show ?thesis by simp
  next
    case (Inr state2)
    have "guarded (protocol sv env) s (fst (phase2 env s) @ fst (?rest state2))"
      using pipeline_ok [of env sv s] eq Inr by (simp add: run_ok_def fst_then_do)
    then have g: "guarded (run_protocol sv env) (session_after s (fst (phase2 env s)))
        (fst (?rest state2))"
      by (auto simp: guarded_append run_protocol_def intro: guarded_weaken)
    have sync: "in_sync state2 (session_after s (fst (phase2 env s)))
        \<and> titles state2 = titles s \<and> length (titles state2) \<le> length (unlinkedNotes state2)"
      using phase2_ok [of s s env sv] Inr
      by (auto simp: run_ok_def in_sync_def phase_post_def)
    have "generated_indices (fst (?rest state2)) = []"
    proof (rule guarded_no_generation [OF g])
      show "titles (session_after s (fst (phase2 env s))) \<noteq> []"
        using sync assms by (auto simp: in_sync_def)
      show "length (titles (session_after s (fst (phase2 env s))))
          \<le> length (unlinkedNotes (session_after s (fst (phase2 env s))))"
        using sync by (auto simp: in_sync_def)
    qed
    with Inr show ?thesis by simp
  qed
  then show ?thesis
    unfolding eq fst_then_do [of "phase2 env s"] generated_indices_append phase2_calls
    by (simp only: append_Nil2)
qed

lemma processBook_calls:
  assumes "titles s \<noteq> []"
  shows "generated_indices (fst (processBook sv env s))
     = up_to_first_failure (generation_succeeds env s)
         [length (unlinkedNotes s)..<length (titles s)]"
  by (cases rule: processBook_cases [of sv env s])
     (simp_all add: generated_indices_append pipeline_calls [OF assms])


lemma pipeline_complete:
  assumes "titles s \<noteq> []" and "length (titles s) \<le> length (unlinkedNotes s)"
  shows "pipeline sv env s =
     (if status s \<noteq> Completed \<or> finalNotes s = [] then
        then_do (phase3 sv env s) (\<lambda>final.
        then_do (onProgress (progress_completed final)) (\<lambda>_. returns final))
      else returns (finalNotes s))"
  using assms by (simp add: pipeline_def phase1_def phase2_def)

lemma phase3_interlinks:
  assumes "unlinkedNotes s \<noteq> []"
  shows "\<exists>ev \<in> set (fst (phase3 sv env s)). is_interlink_call ev"
proof (cases sv)
  case GrokService
  then show ?thesis
    by (simp add: interlinkNotes_grok_def fst_then_do outcome_simps)
next
  case GeminiService
  then show ?thesis
    by (simp add: interlinkNotes_gemini_def fst_then_do outcome_simps)
next
  case OpenRouterService
  with assms show ?thesis
    by (simp add: interlink_loop.simps [of _ _ _ _ 0] interlinkSingleNote_def fst_then_do
          snd_then_do outcome_simps)
qed

lemma processBook_trace:
  "\<exists>rest. fst (processBook sv env s) = fst (pipeline sv env s) @ rest
      \<and> (\<forall>ev \<in> set rest. \<exists>d. ev = OnProgress (progress_error d))"
  by (cases rule: processBook_cases [of sv env s]) auto

lemma phase1_keeps:
  "snd (phase1 env s) = Inr st \<Longrightarrow> status st = status s \<and> finalNotes st = finalNotes s"
  using phase1_ok [of s s env GrokService]
  by (auto simp: run_ok_def in_sync_def phase_post_def)

lemma phase2_keeps:
  "snd (phase2 env s) = Inr st \<Longrightarrow> status st = status s \<and> finalNotes st = finalNotes s"
  using phase2_ok [of s s env GrokService]
  by (auto simp: run_ok_def in_sync_def phase_post_def)

lemma then_do_Inr:
  "snd m = Inr x \<Longrightarrow> fst (then_do m f) = fst m @ fst (f x) \<and> snd (then_do m f) = snd (f x)"
  by (simp add: fst_then_do snd_then_do)

lemma then_do_result:
  "snd (then_do m f) = Inr y \<Longrightarrow> \<exists>x. snd m = Inr x \<and> snd (f x) = Inr y"
  by (cases "snd m") (simp_all add: snd_then_do)

lemma pipeline_last:
  assumes res: "snd (pipeline sv env s) = Inr final"
    and due: "status s \<noteq> Completed \<or> finalNotes s = []"
  shows "\<exists>tr0. fst (pipeline sv env s) = tr0 @ [OnProgress (progress_completed final)]"
proof -
  define F3 where "F3 = (\<lambda>final. then_do (onProgress (progress_completed final))
      (\<lambda>_. returns final))"
  define F2 where "F2 = (\<lambda>state2.
      if status state2 \<noteq> Completed \<or> length (finalNotes state2) = 0
      then then_do (phase3 sv env state2) F3 else returns (finalNotes state2))"
  define F1 where "F1 = (\<lambda>state1. then_do (phase2 env state1) F2)"
  have p: "pipeline sv env s = then_do (phase1 env s) F1"
    unfolding pipeline_def F1_def F2_def F3_def by (rule refl)
  from res obtain st1 where st1: "snd (phase1 env s) = Inr st1" "snd (F1 st1) = Inr final"
    unfolding p by (blast dest: then_do_result)
  then obtain st2 where st2: "snd (phase2 env st1) = Inr st2" "snd (F2 st2) = Inr final"
    unfolding F1_def by (blast dest: then_do_result)
  have "status st2 \<noteq> Completed \<or> length (finalNotes st2) = 0"
    using due phase1_keeps [OF st1(1)] phase2_keeps [OF st2(1)] by auto
  then have F2: "F2 st2 = then_do (phase3 sv env st2) F3"
    by (simp add: F2_def)
  with st2 obtain f where f: "snd (phase3 sv env st2) = Inr f" "snd (F3 f) = Inr final"
    by (auto dest: then_do_result)
  have F3: "F3 f = ([OnProgress (progress_completed f)], Inr f)"
    by (simp add: F3_def onProgress_def returns_def)
  with f have "f = final" by simp
  have "fst (pipeline sv env s) = fst (phase1 env s) @ fst (F1 st1)"
    unfolding p by (simp add: then_do_Inr [OF st1(1)])
  also have "fst (F1 st1) = fst (phase2 env st1) @ fst (F2 st2)"
    unfolding F1_def by (simp add: then_do_Inr [OF st2(1)])
  also have "fst (F2 st2) = fst (phase3 sv env st2) @ fst (F3 f)"
    unfolding F2 by (simp add: then_do_Inr [OF f(1)])
  finally show ?thesis
    using F3 \<open>f = final\<close> by (intro exI [of _ "fst (phase1 env s) @ fst (phase2 env st1)
      @ fst (phase3 sv env st2)"]) simp
qed

lemma session_after_error:
  "\<forall>u. OnProgress u \<in> set tr \<longrightarrow> p_error u = None \<Longrightarrow> error (session_after c tr) = error c"
proof (induction tr arbitrary: c)
  case Nil
  show ?case by simp
next
  case (Cons ev tr)
  from Cons.prems have rest: "\<forall>u. OnProgress u \<in> set tr \<longrightarrow> p_error u = None"
    by (meson list.set_intros(2))
  have ih: "error (session_after (apply_event c ev) tr) = error (apply_event c ev)"
    by (rule Cons.IH [OF rest])
  have "error (apply_event c ev) = error c"
  proof (cases ev)
    case (OnProgress u)
    from Cons.prems have "p_error u = None"
      unfolding OnProgress by (meson list.set_intros(1))
    then show ?thesis unfolding OnProgress by simp
  qed simp_all
  with ih show ?case by simp
qed

lemma protocol_update_error:
  "protocol sv env s' (OnProgress u) \<Longrightarrow> p_error u = None"
  by (auto simp: update_ok_def no_update_def progress_stage_def progress_completed_def)


lemma descriptiveError_nonempty:
  "message_of e \<noteq> Some [] \<Longrightarrow> descriptiveError sv env e \<noteq> []"
  by (cases sv; cases e) (auto simp: unknown_error_def split: option.splits)

lemma failure_not_progress: "failure_of env ev = Some e \<Longrightarrow> apply_event s' ev = s'"
  by (cases ev) simp_all

lemma processBook_prefix:
  "prefix (unlinkedNotes s) (unlinkedNotes (session_after s (fst (processBook sv env s))))"
  using processBook_guarded [of sv env s]
  by (rule guarded_relation [where R = "\<lambda>a b. prefix (unlinkedNotes a) (unlinkedNotes b)"])
     (auto intro: run_protocol_prefix)

lemma pipeline_failed:
  assumes "snd (pipeline sv env s) = Inl e"
  obtains tr0 call where "fst (pipeline sv env s) = tr0 @ [call]"
    "failure_of env call = Some e" "\<forall>ev \<in> set tr0. failure_of env ev = None"
    "protocol sv env (session_after s tr0) call"
proof -
  have ok: "run_ok env (protocol sv env) (pipeline_post s) s (pipeline sv env s)"
    by (rule pipeline_ok)
  with assms obtain tr0 call where tr0: "fst (pipeline sv env s) = tr0 @ [call]"
    "failure_of env call = Some e" "\<forall>ev \<in> set tr0. failure_of env ev = None"
    by (auto simp: run_ok_def stops_at_failure_def)
  from ok tr0(1) have "protocol sv env (session_after s tr0) call"
    by (simp add: run_ok_def guarded_append)
  with tr0 that show ?thesis by blast
qed


subsection \<open>The titles of the generated notes\<close>





subsection \<open>Markers, the title map, the links of the graph and the rendered parts\<close>









lemma graph_links_iff:
  "l \<in> set (graph_links rt ns) \<longleftrightarrow>
     (\<exists>x \<in> set ns. \<exists>m \<in> set (link_matches (content x)). \<exists>targetId.
         titleToIdMap rt ns (targetTitle rt m) = Some targetId
       \<and> targetId \<noteq> [] \<and> targetId \<noteq> id_n x
       \<and> l = \<lparr>link_source = id_n x, link_target = targetId\<rparr>)"
  (is "?lhs \<longleftrightarrow> ?rhs")
proof
  assume ?lhs
  then obtain x where x: "x \<in> set ns" "l \<in> set (note_links rt (titleToIdMap rt ns) x)"
    by (auto simp: graph_links_def)
  from x(2) obtain m where m: "m \<in> set (link_matches (content x))"
    and l: "l \<in> set (case titleToIdMap rt ns (targetTitle rt m) of
                None \<Rightarrow> []
              | Some targetId \<Rightarrow>
                  if targetId \<noteq> [] \<and> targetId \<noteq> id_n x
                  then [\<lparr>link_source = id_n x, link_target = targetId\<rparr>] else [])"
    by (auto simp: note_links_def)
  from l obtain targetId where "titleToIdMap rt ns (targetTitle rt m) = Some targetId"
    "targetId \<noteq> []" "targetId \<noteq> id_n x" "l = \<lparr>link_source = id_n x, link_target = targetId\<rparr>"
    by (cases "titleToIdMap rt ns (targetTitle rt m)") (auto split: if_splits)
  with x(1) m show ?rhs by blast
next
  assume ?rhs
  then obtain x m targetId where x: "x \<in> set ns" and m: "m \<in> set (link_matches (content x))"
    and t: "titleToIdMap rt ns (targetTitle rt m) = Some targetId"
      "targetId \<noteq> []" "targetId \<noteq> id_n x" "l = \<lparr>link_source = id_n x, link_target = targetId\<rparr>"
    by blast
  from m t have "l \<in> set (note_links rt (titleToIdMap rt ns) x)"
    by (force simp: note_links_def)
  with x show ?lhs by (auto simp: graph_links_def)
qed

lemma graph_links_no_loop: "l \<in> set (graph_links rt ns) \<Longrightarrow> link_source l \<noteq> link_target l"
  by (auto simp: graph_links_iff)

lemma otherTitles_excludes: "title noteToLink \<notin> set (otherTitles noteToLink allTitles)"
  by (simp add: otherTitles_def)












subsection \<open>Ids of the final notes\<close>

lemma digit_val_digit_char: "d < 10 \<Longrightarrow> digit_val (digit_char d) = d"
proof -
  assume "d < 10"
  then have "d \<in> {0, 1, 2, 3, 4, 5, 6, 7, 8, 9}" by auto
  then show ?thesis by (auto simp: digit_val_def digit_char_def)
qed

lemma decimal_val_snoc: "decimal_val (s @ [c]) = 10 * decimal_val s + digit_val c"
  by (simp add: decimal_val_def)

lemma decimal_val_toString: "decimal_val (toString n) = n"
proof (induction n rule: toString.induct)
  case (1 n)
  show ?case
  proof (cases "n < 10")
    case True
    then show ?thesis
      by (simp add: toString.simps [of n] decimal_val_def digit_val_digit_char)
  next
    case False
    then have "decimal_val (toString n) =
        10 * decimal_val (toString (n div 10)) + digit_val (digit_char (n mod 10))"
      by (subst toString.simps) (simp add: decimal_val_snoc)
    with False 1 show ?thesis by (simp add: digit_val_digit_char)
  qed
qed

lemma decimal_val_zeros: "decimal_val (replicate k CHR ''0'' @ s) = decimal_val s"
  by (induction k) (simp_all add: decimal_val_def digit_val_def)

lemma note_id_of_inj: "note_id_of i = note_id_of j \<Longrightarrow> i = j"
proof -
  assume "note_id_of i = note_id_of j"
  then have "decimal_val (padStart (toString i) 3 CHR ''0'')
      = decimal_val (padStart (toString j) 3 CHR ''0'')"
    by (simp add: note_id_of_def)
  then show ?thesis by (simp add: padStart_def decimal_val_zeros decimal_val_toString)
qed

lemma ids_by_index_distinct:
  assumes "ids_by_index final"
  shows "distinct (map id_n final)"
proof -
  have "map id_n final = map note_id_of [0..<length final]"
    using assms by (intro nth_equalityI) (simp_all add: ids_by_index_def)
  moreover have "distinct (map note_id_of [0..<length final])"
    by (simp add: distinct_map inj_on_def note_id_of_inj)
  ultimately show ?thesis by simp
qed

text \<open>
  Claim C3 (id determinism). Whatever the model replies, a list of final notes that a run
  hands to \<^verbatim>\<open>onProgress\<close>, and the list a run returns after phase 3 (that is, unless the
  session was already completed with final notes), carries at index \<open>i\<close> the id
  \<^verbatim>\<open>note_\<close> followed by \<open>i\<close> padded with zeros to three digits; so the ids are pairwise
  different.
\<close>

theorem C3_id_determinism:
  assumes "processBook sv env s = (tr, r)"
  shows "(\<forall>u final. OnProgress u \<in> set tr \<and> p_finalNotes u = Some final \<longrightarrow>
            (\<forall>i < length final. id_n (final ! i) = ''note_'' @ padStart (toString i) 3 CHR ''0'')
            \<and> distinct (map id_n final))
       \<and> (\<forall>final. r = Inr final \<and> (status s \<noteq> Completed \<or> finalNotes s = []) \<longrightarrow>
            (\<forall>i < length final. id_n (final ! i) = ''note_'' @ padStart (toString i) 3 CHR ''0'')
            \<and> distinct (map id_n final))"
proof -
  have ok: "run_ok env (protocol sv env) (pipeline_post s) s (pipeline sv env s)"
    by (rule pipeline_ok)
  have ids: "(\<forall>i < length final. id_n (final ! i) = ''note_'' @ padStart (toString i) 3 CHR ''0'')
      \<and> distinct (map id_n final)" if "ids_by_index final" for final
    using that ids_by_index_distinct [OF that] by (simp add: ids_by_index_def note_id_of_def)
  have upd: "ids_by_index final"
    if "OnProgress u \<in> set tr" "p_finalNotes u = Some final" for u final
  proof (cases rule: processBook_cases [of sv env s])
    case (returned f)
    with assms that ok show ?thesis
      by (auto simp: run_ok_def dest: guarded_finalNotes)
  next
    case (failed e)
    with assms that have "OnProgress u \<in> set (fst (pipeline sv env s))"
      by (auto simp: progress_error_def no_update_def)
    with ok that show ?thesis
      by (auto simp: run_ok_def dest: guarded_finalNotes)
  qed
  have ret: "ids_by_index final"
    if "r = Inr final" "status s \<noteq> Completed \<or> finalNotes s = []" for final
  proof (cases rule: processBook_cases [of sv env s])
    case (returned f)
    with assms that ok show ?thesis
      by (auto simp: run_ok_def pipeline_post_def phase3_due_def)
  next
    case (failed e)
    with assms that show ?thesis by simp
  qed
  from upd ret ids show ?thesis by blast
qed

theorem C3_id_determinism_witness:
  "OnProgress (progress_completed final_AB) \<in> set (fst (processBook GrokService replies_ok session_new))
   \<and> p_finalNotes (progress_completed final_AB) = Some final_AB
   \<and> id_n (final_AB ! 1) = ''note_'' @ padStart (toString 1) 3 CHR ''0''
   \<and> distinct (map id_n final_AB)"
proof -
  obtain tr r where run: "processBook GrokService replies_ok session_new = (tr, r)"
    by (cases "processBook GrokService replies_ok session_new")
  have mem: "OnProgress (progress_completed final_AB)
      \<in> set (fst (processBook GrokService replies_ok session_new))"
    by code_simp
  have fin: "p_finalNotes (progress_completed final_AB) = Some final_AB"
    by (simp add: progress_completed_def no_update_def)
  have len: "1 < length final_AB" by (simp add: final_AB_def)
  from C3_id_determinism [OF run] mem fin len run show ?thesis
    by (metis fst_conv)
qed

subsection \<open>Resuming a session\<close>

text \<open>
  Claim C1 (idempotent resume), as amended. For a session with titles and \<open>k\<close> unlinked
  notes, \<open>k\<close> at most the number of titles, a run never calls phase 1 and never sends a
  titles update; it calls phase 2, with the session's text and the title at the index, once
  for each index from \<open>k\<close> on in increasing order, up to the last index or up to the first
  index whose generation throws (so for all of \<open>k, ..., n - 1\<close> when none throws); and every
  list of unlinked notes it reports starts with the \<open>k\<close> notes of the session.
\<close>

theorem C1_idempotent_resume:
  assumes run: "processBook sv env s = (tr, r)"
    and titled: "titles s \<noteq> []"
    and k: "length (unlinkedNotes s) \<le> length (titles s)"
  shows "(\<forall>x. ExtractConcepts x \<notin> set tr)
       \<and> (\<forall>u. OnProgress u \<in> set tr \<longrightarrow> p_titles u = None)
       \<and> generated_indices tr
           = up_to_first_failure (generation_succeeds env s)
               [length (unlinkedNotes s)..<length (titles s)]
       \<and> ((\<forall>i. length (unlinkedNotes s) \<le> i \<and> i < length (titles s) \<longrightarrow>
               generation_succeeds env s i) \<longrightarrow>
            generated_indices tr = [length (unlinkedNotes s)..<length (titles s)])
       \<and> (\<forall>i x t. GenerateSingleNoteBody i x t \<in> set tr \<longrightarrow>
               x = inputText s \<and> t = titles s ! i)
       \<and> (\<forall>u uns. OnProgress u \<in> set tr \<and> p_unlinkedNotes u = Some uns \<longrightarrow>
               take (length (unlinkedNotes s)) uns = unlinkedNotes s)"
proof -
  have 1: "ExtractConcepts x \<notin> set tr" for x
  proof
    assume "ExtractConcepts x \<in> set tr"
    with run titled obtain s' where "resumed_from s s'" "run_protocol sv env s' (ExtractConcepts x)"
      by (rule resumed_event)
    with titled show False by (simp add: resumed_from_def run_protocol_def)
  qed
  have 2: "p_titles u = None" if "OnProgress u \<in> set tr" for u
  proof -
    from run titled that obtain s' where "resumed_from s s'" "run_protocol sv env s' (OnProgress u)"
      by (rule resumed_event)
    with titled show ?thesis
      using run_protocol_titles [of s' sv env "OnProgress u"] by (simp add: resumed_from_def)
  qed
  have 3: "generated_indices tr = up_to_first_failure (generation_succeeds env s)
      [length (unlinkedNotes s)..<length (titles s)]"
    using processBook_calls [OF titled, of sv env] run by simp
  have 4: "generated_indices tr = [length (unlinkedNotes s)..<length (titles s)]"
    if "\<forall>i. length (unlinkedNotes s) \<le> i \<and> i < length (titles s) \<longrightarrow> generation_succeeds env s i"
    using that by (simp add: 3 up_to_first_failure_all)
  have 5: "x = inputText s \<and> t = titles s ! i" if "GenerateSingleNoteBody i x t \<in> set tr" for i x t
  proof -
    from run titled that obtain s' where "resumed_from s s'"
      "run_protocol sv env s' (GenerateSingleNoteBody i x t)"
      by (rule resumed_event)
    then show ?thesis by (simp add: resumed_from_def run_protocol_def)
  qed
  have 6: "take (length (unlinkedNotes s)) uns = unlinkedNotes s"
    if "OnProgress u \<in> set tr" "p_unlinkedNotes u = Some uns" for u uns
  proof -
    from run titled that(1) obtain s' where s': "resumed_from s s'"
      "run_protocol sv env s' (OnProgress u)"
      by (rule resumed_event)
    then have "prefix (unlinkedNotes s') uns"
      using that(2) run_protocol_prefix [of sv env s' "OnProgress u"] by simp
    with s' have "prefix (unlinkedNotes s) uns" by (auto simp: resumed_from_def)
    then show ?thesis by (auto simp: prefix_def)
  qed
  from 1 2 3 4 5 6 show ?thesis by blast
qed

theorem C1_idempotent_resume_witness:
  "titles session_resume = [''A'', ''B''] \<and> length (unlinkedNotes session_resume) = 1
   \<and> generated_indices (fst (processBook GrokService replies_ok session_resume)) = [1]
   \<and> (\<forall>x. ExtractConcepts x \<notin> set (fst (processBook GrokService replies_ok session_resume)))"
proof -
  obtain tr r where run: "processBook GrokService replies_ok session_resume = (tr, r)"
    by (cases "processBook GrokService replies_ok session_resume")
  have s: "titles session_resume = [''A'', ''B'']" "length (unlinkedNotes session_resume) = 1"
    by (simp_all add: session_resume_def)
  then have titled: "titles session_resume \<noteq> []"
    and k: "length (unlinkedNotes session_resume) \<le> length (titles session_resume)"
    by simp_all
  have all: "\<forall>i. length (unlinkedNotes session_resume) \<le> i \<and> i < length (titles session_resume) \<longrightarrow>
      generation_succeeds replies_ok session_resume i"
    by (simp add: generation_succeeds_def replies_ok_def)
  from C1_idempotent_resume [OF run titled k] all
  have "(\<forall>x. ExtractConcepts x \<notin> set tr)
      \<and> generated_indices tr = [length (unlinkedNotes session_resume)..<length (titles session_resume)]"
    by blast
  with s run show ?thesis by simp
qed

text \<open>
  The claim as it was stated, a call for every index from \<open>k\<close> on, fails for a run whose
  first generation throws: of the indices 0 and 1 only 0 is called.
\<close>

theorem C1_failed_generation_counterexample:
  "titles session_titled = [''A'', ''B''] \<and> unlinkedNotes session_titled = []
   \<and> generated_indices
       (fst (processBook GrokService (replies_failing (Error_obj ''Failed to fetch'')) session_titled))
     = [0]"
  by code_simp

subsection \<open>Backoff of the retry wrappers\<close>

lemma retry_trace_Suc:
  "first < j \<Longrightarrow> retry_trace b first j
     = [ApiCall first, Delay (b * 2 ^ first)] @ retry_trace b (Suc first) j"
  by (simp add: retry_trace_def upt_conv_Cons)

lemma retry_trace_empty [simp]: "retry_trace b j j = []"
  by (simp add: retry_trace_def)

lemma gemini_loop_returns:
  "first \<le> j \<Longrightarrow> j < maxRetries \<Longrightarrow>
   \<forall>a. first \<le> a \<and> a < j \<longrightarrow> rate_limited isRateLimitError_gemini (apiCall a) \<Longrightarrow>
   apiCall j = Inr r \<Longrightarrow>
   callGeminiWithRetries_loop apiCall maxRetries b first lastError
     = (retry_trace b first j @ [ApiCall j], Inr r)"
proof (induction apiCall maxRetries b first lastError rule: callGeminiWithRetries_loop.induct)
  case (1 apiCall maxRetries b attempt lastError)
  show ?case
  proof (cases "attempt = j")
    case True
    with "1.prems" show ?thesis
      by (subst callGeminiWithRetries_loop.simps) (simp add: await_def)
  next
    case False
    with "1.prems" have lt: "attempt < j" by simp
    with "1.prems" have "rate_limited isRateLimitError_gemini (apiCall attempt)" by simp
    then obtain e where e: "apiCall attempt = Inl e" "isRateLimitError_gemini e"
      by (cases "apiCall attempt") (auto simp: rate_limited_def)
    have "callGeminiWithRetries_loop apiCall maxRetries b (attempt + 1) e
        = (retry_trace b (attempt + 1) j @ [ApiCall j], Inr r)"
      using "1.prems" lt e by (intro "1.IH") auto
    with lt "1.prems" e show ?thesis
      by (subst callGeminiWithRetries_loop.simps)
         (simp add: await_def delay_def retry_trace_Suc [of attempt])
  qed
qed

lemma gemini_loop_exhausted:
  "first < maxRetries \<Longrightarrow>
   \<forall>a. first \<le> a \<and> a < maxRetries \<longrightarrow> rate_limited isRateLimitError_gemini (apiCall a) \<Longrightarrow>
   callGeminiWithRetries_loop apiCall maxRetries b first lastError
     = (retry_trace b first maxRetries, apiCall (maxRetries - 1))"
proof (induction apiCall maxRetries b first lastError rule: callGeminiWithRetries_loop.induct)
  case (1 apiCall maxRetries b attempt lastError)
  from "1.prems" have "rate_limited isRateLimitError_gemini (apiCall attempt)" by simp
  then obtain e where e: "apiCall attempt = Inl e" "isRateLimitError_gemini e"
    by (cases "apiCall attempt") (auto simp: rate_limited_def)
  show ?case
  proof (cases "attempt + 1 < maxRetries")
    case True
    have "callGeminiWithRetries_loop apiCall maxRetries b (attempt + 1) e
        = (retry_trace b (attempt + 1) maxRetries, apiCall (maxRetries - 1))"
      using "1.prems" True e by (intro "1.IH") auto
    with "1.prems" e show ?thesis
      by (subst callGeminiWithRetries_loop.simps)
         (simp add: await_def delay_def retry_trace_Suc [of attempt])
  next
    case False
    with "1.prems" have m: "maxRetries = Suc attempt" by simp
    have "callGeminiWithRetries_loop apiCall maxRetries b (attempt + 1) e = ([], Inl e)"
      using m by (subst callGeminiWithRetries_loop.simps) (simp add: throws_def)
    moreover have "retry_trace b attempt (Suc attempt) = [ApiCall attempt, Delay (b * 2 ^ attempt)]"
      by (simp add: retry_trace_def)
    ultimately show ?thesis
      using e m by (subst callGeminiWithRetries_loop.simps) (simp add: await_def delay_def)
  qed
qed

lemma openrouter_loop_returns:
  "first \<le> j \<Longrightarrow> j < maxRetries \<Longrightarrow>
   \<forall>a. first \<le> a \<and> a < j \<longrightarrow> rate_limited isRateLimitError_openrouter (openrouter_attempt (fetch a)) \<Longrightarrow>
   openrouter_attempt (fetch j) = Inr r \<Longrightarrow>
   callOpenRouterWithRetries_loop stringify fetch maxRetries b first lastError
     = (retry_trace b first j @ [ApiCall j], Inr r)"
proof (induction stringify fetch maxRetries b first lastError rule: callOpenRouterWithRetries_loop.induct)
  case (1 stringify fetch maxRetries b attempt lastError)
  show ?case
  proof (cases "attempt = j")
    case True
    with "1.prems" show ?thesis
      by (subst callOpenRouterWithRetries_loop.simps) (simp add: await_def)
  next
    case False
    with "1.prems" have lt: "attempt < j" by simp
    with "1.prems" have "rate_limited isRateLimitError_openrouter (openrouter_attempt (fetch attempt))" by simp
    then obtain e where e: "openrouter_attempt (fetch attempt) = Inl e" "isRateLimitError_openrouter e"
      by (cases "openrouter_attempt (fetch attempt)") (auto simp: rate_limited_def)
    have "callOpenRouterWithRetries_loop stringify fetch maxRetries b (attempt + 1) e
        = (retry_trace b (attempt + 1) j @ [ApiCall j], Inr r)"
      using "1.prems" lt e by (intro "1.IH") auto
    with lt "1.prems" e show ?thesis
      by (subst callOpenRouterWithRetries_loop.simps)
         (simp add: await_def delay_def retry_trace_Suc [of attempt])
  qed
qed

lemma openrouter_loop_exhausted:
  "first < maxRetries \<Longrightarrow>
   \<forall>a. first \<le> a \<and> a < maxRetries \<longrightarrow> rate_limited isRateLimitError_openrouter (openrouter_attempt (fetch a)) \<Longrightarrow>
   callOpenRouterWithRetries_loop stringify fetch maxRetries b first lastError
     = (retry_trace b first maxRetries, openrouter_attempt (fetch (maxRetries - 1)))"
proof (induction stringify fetch maxRetries b first lastError rule: callOpenRouterWithRetries_loop.induct)
  case (1 stringify fetch maxRetries b attempt lastError)
  from "1.prems" have "rate_limited isRateLimitError_openrouter (openrouter_attempt (fetch attempt))" by simp
  then obtain e where e: "openrouter_attempt (fetch attempt) = Inl e" "isRateLimitError_openrouter e"
    by (cases "openrouter_attempt (fetch attempt)") (auto simp: rate_limited_def)
  show ?case
  proof (cases "attempt + 1 < maxRetries")
    case True
    have "callOpenRouterWithRetries_loop stringify fetch maxRetries b (attempt + 1) e
        = (retry_trace b (attempt + 1) maxRetries, openrouter_attempt (fetch (maxRetries - 1)))"
      using "1.prems" True e by (intro "1.IH") auto
    with "1.prems" e show ?thesis
      by (subst callOpenRouterWithRetries_loop.simps)
         (simp add: await_def delay_def retry_trace_Suc [of attempt])
  next
    case False
    with "1.prems" have m: "maxRetries = Suc attempt" by simp
    have "callOpenRouterWithRetries_loop stringify fetch maxRetries b (attempt + 1) e = ([], Inl e)"
      using m by (subst callOpenRouterWithRetries_loop.simps) (simp add: throws_def)
    moreover have "retry_trace b attempt (Suc attempt) = [ApiCall attempt, Delay (b * 2 ^ attempt)]"
      by (simp add: retry_trace_def)
    ultimately show ?thesis
      using e m by (subst callOpenRouterWithRetries_loop.simps) (simp add: await_def delay_def)
  qed
qed

lemma grok_loop_returns:
  "first \<le> j \<Longrightarrow> j < maxRetries \<Longrightarrow>
   \<forall>a. first \<le> a \<and> a < j \<longrightarrow> rate_limited isRateLimitError_grok (grok_attempt (fetch a)) \<Longrightarrow>
   grok_attempt (fetch j) = Inr r \<Longrightarrow>
   callGrokWithRetries_loop fetch maxRetries b first lastError
     = (retry_trace b first j @ [ApiCall j], Inr r)"
proof (induction fetch maxRetries b first lastError rule: callGrokWithRetries_loop.induct)
  case (1 fetch maxRetries b attempt lastError)
  show ?case
  proof (cases "attempt = j")
    case True
    with "1.prems" show ?thesis
      by (subst callGrokWithRetries_loop.simps) (simp add: await_def)
  next
    case False
    with "1.prems" have lt: "attempt < j" by simp
    with "1.prems" have "rate_limited isRateLimitError_grok (grok_attempt (fetch attempt))" by simp
    then obtain e where e: "grok_attempt (fetch attempt) = Inl e" "isRateLimitError_grok e"
      by (cases "grok_attempt (fetch attempt)") (auto simp: rate_limited_def)
    have "callGrokWithRetries_loop fetch maxRetries b (attempt + 1) e
        = (retry_trace b (attempt + 1) j @ [ApiCall j], Inr r)"
      using "1.prems" lt e by (intro "1.IH") auto
    moreover from lt "1.prems" have "attempt < maxRetries - 1" by simp
    ultimately show ?thesis
      using lt "1.prems" e
      by (subst callGrokWithRetries_loop.simps)
         (simp add: await_def delay_def retry_trace_Suc [of attempt])
  qed
qed

lemma grok_loop_exhausted:
  "first < maxRetries \<Longrightarrow>
   \<forall>a. first \<le> a \<and> a < maxRetries \<longrightarrow> rate_limited isRateLimitError_grok (grok_attempt (fetch a)) \<Longrightarrow>
   callGrokWithRetries_loop fetch maxRetries b first lastError
     = (retry_trace b first (maxRetries - 1) @ [ApiCall (maxRetries - 1)],
        grok_attempt (fetch (maxRetries - 1)))"
proof (induction fetch maxRetries b first lastError rule: callGrokWithRetries_loop.induct)
  case (1 fetch maxRetries b attempt lastError)
  from "1.prems" have "rate_limited isRateLimitError_grok (grok_attempt (fetch attempt))" by simp
  then obtain e where e: "grok_attempt (fetch attempt) = Inl e" "isRateLimitError_grok e"
    by (cases "grok_attempt (fetch attempt)") (auto simp: rate_limited_def)
  show ?case
  proof (cases "attempt + 1 < maxRetries")
    case True
    have "callGrokWithRetries_loop fetch maxRetries b (attempt + 1) e
        = (retry_trace b (attempt + 1) (maxRetries - 1) @ [ApiCall (maxRetries - 1)],
           grok_attempt (fetch (maxRetries - 1)))"
      using "1.prems" True e by (intro "1.IH") auto
    moreover from True have "attempt < maxRetries - 1" by simp
    ultimately show ?thesis
      using e "1.prems"(1)
      by (subst callGrokWithRetries_loop.simps)
         (simp add: await_def delay_def retry_trace_Suc [of attempt])
  next
    case False
    with "1.prems" have m: "maxRetries = Suc attempt" by simp
    with e show ?thesis
      by (subst callGrokWithRetries_loop.simps) (simp add: await_def throws_def)
  qed
qed

lemma attempts_of_append: "attempts_of (xs @ ys) = attempts_of xs @ attempts_of ys"
  by (induction xs rule: attempts_of.induct) simp_all

lemma delays_of_append: "delays_of (xs @ ys) = delays_of xs @ delays_of ys"
  by (induction xs rule: delays_of.induct) simp_all

lemma attempts_of_retry_trace: "attempts_of (retry_trace b first j) = [first..<j]"
proof (induction "j - first" arbitrary: first)
  case 0
  then show ?case by (simp add: retry_trace_def)
next
  case (Suc k)
  then have "first < j" by simp
  with Suc show ?case by (simp add: retry_trace_Suc upt_conv_Cons)
qed

lemma delays_of_retry_trace:
  "delays_of (retry_trace b first j) = map (\<lambda>a. b * 2 ^ a) [first..<j]"
proof (induction "j - first" arbitrary: first)
  case 0
  then show ?case by (simp add: retry_trace_def)
next
  case (Suc k)
  then have "first < j" by simp
  with Suc show ?case by (simp add: retry_trace_Suc upt_conv_Cons)
qed

text \<open>
  Claim C4 (backoff timing), as amended. \<^verbatim>\<open>maxRetries\<close> bounds the attempts, not the
  retries: each wrapper makes at most \<^verbatim>\<open>maxRetries\<close> attempts. If attempts \<open>0, ..., j - 1\<close>
  fail with a rate-limit error and attempt \<open>j < maxRetries\<close> succeeds, the run is attempt
  \<open>0\<close>, a wait of \<open>initialDelay * 2 ^ 0\<close>, attempt \<open>1\<close>, a wait of \<open>initialDelay * 2 ^ 1\<close>,
  and so on up to attempt \<open>j\<close>, whose reply is returned. If all \<^verbatim>\<open>maxRetries\<close> attempts fail
  with a rate-limit error, exactly the attempts \<open>0, ..., maxRetries - 1\<close> are made and
  the error of the last one is thrown. (\<open>retry_trace b 0 j\<close> is the list
  \<open>ApiCall 0, Delay (b * 2 ^ 0), ..., ApiCall (j - 1), Delay (b * 2 ^ (j - 1))\<close>.)
\<close>

theorem C4_backoff:
  assumes "j < maxRetries"
  shows "((\<forall>a < j. rate_limited isRateLimitError_gemini (apiCall a)) \<and> apiCall j = Inr r \<longrightarrow>
            callGeminiWithRetries apiCall maxRetries initialDelay
              = (retry_trace initialDelay 0 j @ [ApiCall j], Inr r))
       \<and> ((\<forall>a < j. rate_limited isRateLimitError_grok (grok_attempt (fetch a)))
             \<and> grok_attempt (fetch j) = Inr t \<longrightarrow>
            callGrokWithRetries fetch maxRetries initialDelay
              = (retry_trace initialDelay 0 j @ [ApiCall j], Inr t))
       \<and> ((\<forall>a < j. rate_limited isRateLimitError_openrouter (openrouter_attempt (fetch' a)))
             \<and> openrouter_attempt (fetch' j) = Inr d \<longrightarrow>
            callOpenRouterWithRetries stringify fetch' maxRetries initialDelay
              = (retry_trace initialDelay 0 j @ [ApiCall j], Inr d))
       \<and> ((\<forall>a < maxRetries. rate_limited isRateLimitError_gemini (apiCall a)) \<longrightarrow>
            attempts_of (fst (callGeminiWithRetries apiCall maxRetries initialDelay))
              = [0..<maxRetries]
            \<and> snd (callGeminiWithRetries apiCall maxRetries initialDelay)
              = apiCall (maxRetries - 1))
       \<and> ((\<forall>a < maxRetries. rate_limited isRateLimitError_grok (grok_attempt (fetch a))) \<longrightarrow>
            attempts_of (fst (callGrokWithRetries fetch maxRetries initialDelay))
              = [0..<maxRetries]
            \<and> snd (callGrokWithRetries fetch maxRetries initialDelay)
              = grok_attempt (fetch (maxRetries - 1)))
       \<and> ((\<forall>a < maxRetries. rate_limited isRateLimitError_openrouter
               (openrouter_attempt (fetch' a))) \<longrightarrow>
            attempts_of (fst (callOpenRouterWithRetries stringify fetch' maxRetries initialDelay))
              = [0..<maxRetries]
            \<and> snd (callOpenRouterWithRetries stringify fetch' maxRetries initialDelay)
              = openrouter_attempt (fetch' (maxRetries - 1)))"
proof -
  from assms have pos: "0 < maxRetries" by simp
  then have last: "[0..<maxRetries - 1] @ [maxRetries - 1] = [0..<maxRetries]"
    by (cases maxRetries) simp_all
  have 1: "callGeminiWithRetries apiCall maxRetries initialDelay
      = (retry_trace initialDelay 0 j @ [ApiCall j], Inr r)"
    if "\<forall>a < j. rate_limited isRateLimitError_gemini (apiCall a)" "apiCall j = Inr r"
    unfolding callGeminiWithRetries_def using assms that
    by (intro gemini_loop_returns) simp_all
  have 2: "callGrokWithRetries fetch maxRetries initialDelay
      = (retry_trace initialDelay 0 j @ [ApiCall j], Inr t)"
    if "\<forall>a < j. rate_limited isRateLimitError_grok (grok_attempt (fetch a))"
      "grok_attempt (fetch j) = Inr t"
    unfolding callGrokWithRetries_def using assms that
    by (intro grok_loop_returns) simp_all
  have 3: "callOpenRouterWithRetries stringify fetch' maxRetries initialDelay
      = (retry_trace initialDelay 0 j @ [ApiCall j], Inr d)"
    if "\<forall>a < j. rate_limited isRateLimitError_openrouter (openrouter_attempt (fetch' a))"
      "openrouter_attempt (fetch' j) = Inr d"
    unfolding callOpenRouterWithRetries_def using assms that
    by (intro openrouter_loop_returns) simp_all
  have 4: "attempts_of (fst (callGeminiWithRetries apiCall maxRetries initialDelay))
        = [0..<maxRetries]
      \<and> snd (callGeminiWithRetries apiCall maxRetries initialDelay) = apiCall (maxRetries - 1)"
    if "\<forall>a < maxRetries. rate_limited isRateLimitError_gemini (apiCall a)"
    unfolding callGeminiWithRetries_def using pos that
    by (subst (1 2) gemini_loop_exhausted) (simp_all add: attempts_of_retry_trace)
  have 5: "attempts_of (fst (callGrokWithRetries fetch maxRetries initialDelay))
        = [0..<maxRetries]
      \<and> snd (callGrokWithRetries fetch maxRetries initialDelay)
        = grok_attempt (fetch (maxRetries - 1))"
    if "\<forall>a < maxRetries. rate_limited isRateLimitError_grok (grok_attempt (fetch a))"
    unfolding callGrokWithRetries_def using pos that last
    by (subst (1 2) grok_loop_exhausted)
       (simp_all add: attempts_of_retry_trace attempts_of_append)
  have 6: "attempts_of (fst (callOpenRouterWithRetries stringify fetch' maxRetries initialDelay))
        = [0..<maxRetries]
      \<and> snd (callOpenRouterWithRetries stringify fetch' maxRetries initialDelay)
        = openrouter_attempt (fetch' (maxRetries - 1))"
    if "\<forall>a < maxRetries. rate_limited isRateLimitError_openrouter (openrouter_attempt (fetch' a))"
    unfolding callOpenRouterWithRetries_def using pos that
    by (subst (1 2) openrouter_loop_exhausted) (simp_all add: attempts_of_retry_trace)
  from 1 2 3 4 5 6 show ?thesis by blast
qed

lemma all_less_2: "(\<forall>a < (2::nat). P a) \<longleftrightarrow> P 0 \<and> P 1"
  by (auto simp: less_Suc_eq numeral_2_eq_2)

theorem C4_backoff_witness:
  "callGeminiWithRetries (quota_then_ok 2) 3 2000
     = ([ApiCall 0, Delay 2000, ApiCall 1, Delay 4000, ApiCall 2], Inr ''reply'')
   \<and> callGrokWithRetries (http_429_then_ok 2) 3 2000
     = ([ApiCall 0, Delay 2000, ApiCall 1, Delay 4000, ApiCall 2], Inr ''reply'')
   \<and> callOpenRouterWithRetries no_stringify (http_429_then_ok 2) 3 2000
     = ([ApiCall 0, Delay 2000, ApiCall 1, Delay 4000, ApiCall 2],
        Inr \<lparr>choices = [\<lparr>message_content = Some ''reply'', finish_reason = ''stop''\<rparr>]\<rparr>)"
proof -
  have g: "\<forall>a < 2. rate_limited isRateLimitError_gemini (quota_then_ok 2 a)"
    by (simp add: all_less_2 quota_then_ok_def rate_limited_def isRateLimitError_gemini_def
          quota_error_def)
  have k: "\<forall>a < 2. rate_limited isRateLimitError_grok (grok_attempt (http_429_then_ok 2 a))"
  proof -
    have "rate_limited isRateLimitError_grok (grok_attempt (http_429_then_ok 2 0))"
      by code_simp
    moreover have "rate_limited isRateLimitError_grok (grok_attempt (http_429_then_ok 2 1))"
      by code_simp
    ultimately show ?thesis by (simp add: all_less_2)
  qed
  have o: "\<forall>a < 2. rate_limited isRateLimitError_openrouter
             (openrouter_attempt (http_429_then_ok 2 a))"
    by (simp add: all_less_2 http_429_then_ok_def rate_limited_def openrouter_attempt_def
          http_429_def)
  have tr: "retry_trace 2000 0 2 @ [ApiCall 2]
      = [ApiCall 0, Delay 2000, ApiCall 1, Delay 4000, ApiCall 2]"
    by code_simp
  have "(2::nat) < 3" by simp
  from C4_backoff [OF this, of "quota_then_ok 2" "''reply''" 2000 "http_429_then_ok 2" "''reply''"
      "http_429_then_ok 2"
      "\<lparr>choices = [\<lparr>message_content = Some ''reply'', finish_reason = ''stop''\<rparr>]\<rparr>" no_stringify]
    g k o tr
  show ?thesis
    by (simp add: quota_then_ok_def http_429_then_ok_def grok_attempt_def openrouter_attempt_def
          http_200_def)
qed

text \<open>
  Claim C4 as stated fails: with the defaults, three rate-limited attempts followed by an
  attempt that would succeed end in a throw. The fourth attempt is never made; the Grok
  wrapper has waited 2000 and 4000 ms, the other two 2000, 4000 and 8000 ms.
\<close>

theorem C4_three_failures_counterexample:
  "callGeminiWithRetries (quota_then_ok 3) 3 2000
     = ([ApiCall 0, Delay 2000, ApiCall 1, Delay 4000, ApiCall 2, Delay 8000], Inl quota_error)
   \<and> callGrokWithRetries (http_429_then_ok 3) 3 2000
     = ([ApiCall 0, Delay 2000, ApiCall 1, Delay 4000, ApiCall 2],
        Inl (Error_obj ''API request failed: 429 slow down''))
   \<and> callOpenRouterWithRetries no_stringify (http_429_then_ok 3) 3 2000
     = ([ApiCall 0, Delay 2000, ApiCall 1, Delay 4000, ApiCall 2, Delay 8000],
        Inl (Error_info 429 None))
   \<and> quota_then_ok 3 3 = Inr ''reply''
   \<and> grok_attempt (http_429_then_ok 3 3) = Inr ''reply''"
  by code_simp

subsection \<open>When phase 3 runs\<close>

text \<open>
  Claim C2 (when phase 3 runs), as amended. For a session with titles in which every title
  has its unlinked note, a run makes an interlink call if and only if the status is not
  \<^verbatim>\<open>completed\<close> or there are no final notes; a session that is completed and has final
  notes is answered with those notes, without any event.
\<close>

theorem C2_interlink_guard:
  assumes run: "processBook sv env s = (tr, r)"
    and titled: "titles s \<noteq> []"
    and complete: "length (titles s) \<le> length (unlinkedNotes s)"
  shows "((\<exists>ev \<in> set tr. is_interlink_call ev) \<longleftrightarrow> (status s \<noteq> Completed \<or> finalNotes s = []))
       \<and> (status s = Completed \<and> finalNotes s \<noteq> [] \<longrightarrow> tr = [] \<and> r = Inr (finalNotes s))"
proof (cases "status s \<noteq> Completed \<or> finalNotes s = []")
  case True
  from titled complete have "unlinkedNotes s \<noteq> []" by auto
  then obtain ev where "ev \<in> set (fst (phase3 sv env s))" "is_interlink_call ev"
    using phase3_interlinks [of s sv env] by blast
  moreover have "set (fst (phase3 sv env s)) \<subseteq> set (fst (pipeline sv env s))"
    using True by (simp add: pipeline_complete [OF titled complete] fst_then_do)
  moreover have "set (fst (pipeline sv env s)) \<subseteq> set tr"
    using processBook_trace [of sv env s] run by auto
  ultimately have "\<exists>ev \<in> set tr. is_interlink_call ev" by blast
  with True show ?thesis by auto
next
  case False
  then have "pipeline sv env s = returns (finalNotes s)"
    by (simp add: pipeline_complete [OF titled complete])
  then have "processBook sv env s = ([], Inr (finalNotes s))"
    by (simp add: processBook_def returns_def)
  with run False show ?thesis by auto
qed

theorem C2_interlink_guard_witness:
  "status session_done = Completed \<and> finalNotes session_done = final_old
   \<and> processBook GrokService replies_ok session_done = ([], Inr final_old)
   \<and> \<not> (\<exists>ev \<in> set (fst (processBook GrokService replies_ok session_done)). is_interlink_call ev)"
proof -
  obtain tr r where run: "processBook GrokService replies_ok session_done = (tr, r)"
    by (cases "processBook GrokService replies_ok session_done")
  have s: "status session_done = Completed" "finalNotes session_done = final_old"
    "final_old \<noteq> []"
    by (simp_all add: session_done_def session_interrupted_def final_old_def)
  have titled: "titles session_done \<noteq> []"
    and complete: "length (titles session_done) \<le> length (unlinkedNotes session_done)"
    by (simp_all add: session_done_def session_interrupted_def session_resume_def)
  from C2_interlink_guard [OF run titled complete] s
  have "tr = [] \<and> r = Inr final_old \<and> \<not> (\<exists>ev \<in> set tr. is_interlink_call ev)"
    by simp
  with s run show ?thesis by simp
qed

text \<open>
  The claim as it was stated, no interlink call when there are final notes, fails for a
  session that an error stopped after the last note while it still held the final notes of
  an earlier book: phase 3 runs and replaces them.
\<close>

theorem C2_stale_final_notes_counterexample:
  "status session_interrupted = Error \<and> finalNotes session_interrupted = final_old
   \<and> final_old \<noteq> []
   \<and> map title (unlinkedNotes session_interrupted) = titles session_interrupted
   \<and> InterlinkNotes (notesWithTempIds [note_A, note_B])
       \<in> set (fst (processBook GrokService replies_ok session_interrupted))
   \<and> snd (processBook GrokService replies_ok session_interrupted) = Inr final_AB
   \<and> finalNotes (session_after session_interrupted
         (fst (processBook GrokService replies_ok session_interrupted))) = final_AB
   \<and> final_AB \<noteq> final_old"
  by code_simp


subsection \<open>Empty replies\<close>

lemma callGrokWithRetries_first_ok:
  "grok_attempt (fetch 0) = Inr t \<Longrightarrow> callGrokWithRetries fetch 3 2000 = ([ApiCall 0], Inr t)"
  unfolding callGrokWithRetries_def
  by (subst callGrokWithRetries_loop.simps) (simp add: await_def)

text \<open>The parsers of the OpenRouter service and of geminiService.ts tell the three kinds
  of empty reply apart.\<close>

lemma safeParseJsonResponse_openrouter_empty:
  "safeParseJsonResponse_openrouter rt JSON_parse (empty_reply ''content_filter'')
     = Inl (Error_obj blocked_by_filter)"
  "safeParseJsonResponse_openrouter rt JSON_parse (empty_reply ''length'') = Inl (Error_obj cut_off)"
  "safeParseJsonResponse_openrouter rt JSON_parse (empty_reply ''max_tokens'') = Inl (Error_obj cut_off)"
  "fr \<notin> {''content_filter'', ''length'', ''max_tokens''} \<Longrightarrow>
     safeParseJsonResponse_openrouter rt JSON_parse (empty_reply fr)
       = Inl (Error_obj ''OpenRouter API returned an empty or invalid response.'')"
  "blocked_by_filter \<noteq> cut_off"
  "blocked_by_filter \<noteq> ''OpenRouter API returned an empty or invalid response.''"
  "cut_off \<noteq> ''OpenRouter API returned an empty or invalid response.''"
  by (simp_all add: safeParseJsonResponse_openrouter_def empty_reply_def blocked_by_filter_def
        cut_off_def)

lemma safeParseJsonResponse_gemini_empty:
  "safeParseJsonResponse_gemini rt JSON_parse (empty_candidate ''SAFETY'')
     = Inl (Error_obj ''The request was blocked by safety settings . Please modify the input text.'')"
  "safeParseJsonResponse_gemini rt JSON_parse (empty_candidate ''MAX_TOKENS'') = Inl (Error_obj cut_off)"
  "fr \<notin> {''SAFETY'', ''MAX_TOKENS''} \<Longrightarrow>
     safeParseJsonResponse_gemini rt JSON_parse (empty_candidate fr)
       = Inl (Error_obj ''Gemini API returned an empty or invalid response.'')"
  by (simp_all add: safeParseJsonResponse_gemini_def empty_candidate_def
        gemini_empty_response_def blocked_by_safety_def)

text \<open>
  Claim C5 (empty-response classification) on grokService.ts, the service App.tsx runs:
  \<^verbatim>\<open>callGrokWithRetries\<close> hands on the content only and the parser sees the empty text only,
  so the outcome of a request answered with an empty content is the same for every finish
  reason.
\<close>

theorem C5_grok_empty_reply:
  "grok_request (fetch_empty fr) JSON_parse = ([ApiCall 0], safeParseJsonResponse_grok JSON_parse [])"
proof -
  have "grok_attempt (fetch_empty fr 0) = Inr []"
    by (simp add: grok_attempt_def fetch_empty_def http_200_def)
  then have "callGrokWithRetries (fetch_empty fr) 3 2000 = ([ApiCall 0], Inr [])"
    by (rule callGrokWithRetries_first_ok)
  then show ?thesis by (simp add: grok_request_def)
qed

theorem C5_grok_empty_reply_witness:
  "grok_request (fetch_empty ''length'') json_rejects_empty
     = ([ApiCall 0], Inl (Error_obj ''Invalid response format from API''))
   \<and> grok_request (fetch_empty ''content_filter'') json_rejects_empty
     = ([ApiCall 0], Inl (Error_obj ''Invalid response format from API''))"
proof -
  have "safeParseJsonResponse_grok json_rejects_empty []
      = Inl (Error_obj ''Invalid response format from API'')"
    by (simp add: safeParseJsonResponse_grok_def json_rejects_empty_def strip_fence_start_def
          strip_fence_end_def invalid_format_def)
  with C5_grok_empty_reply [of "''length''" json_rejects_empty]
    C5_grok_empty_reply [of "''content_filter''" json_rejects_empty]
  show ?thesis by simp
qed

subsection \<open>A failing run\<close>

text \<open>
  Claim C6 (error propagation), as amended. When a phase call of a run throws, the run
  stops there: the failed call is followed by exactly one progress update, with the status
  \<^verbatim>\<open>error\<close> and the error string, and the run throws an \<^verbatim>\<open>Error\<close> whose message is a fixed
  prefix and that string. The string is the message of what the call threw (for Gemini,
  \<^verbatim>\<open>API Error:\<close> and the message inside it; the fixed text for a thrown value without a
  message), so it is not empty unless the thrown message is. The update leaves the unlinked
  notes as they were before the failed call: they extend the notes of the session, and when
  the failed call generated note \<open>i\<close> there are \<open>i\<close> of them.
\<close>

theorem C6_error_propagation:
  assumes run: "processBook sv env s = (tr, r)"
    and thrown: "call \<in> set tr" "failure_of env call = Some e"
  shows "\<exists>tr0. tr = tr0 @ [call, OnProgress (progress_error (descriptiveError sv env e))]
       \<and> (\<forall>ev \<in> set tr0. failure_of env ev = None)
       \<and> r = Inl (Error_obj (failure_prefix sv @ descriptiveError sv env e))
       \<and> (message_of e \<noteq> Some [] \<longrightarrow> descriptiveError sv env e \<noteq> [])
       \<and> status (session_after s tr) = Error
       \<and> error (session_after s tr) = Some (descriptiveError sv env e)
       \<and> unlinkedNotes (session_after s tr) = unlinkedNotes (session_after s tr0)
       \<and> prefix (unlinkedNotes s) (unlinkedNotes (session_after s tr))
       \<and> (\<forall>i x t. call = GenerateSingleNoteBody i x t \<longrightarrow>
             length (unlinkedNotes (session_after s tr)) = i)"
proof (cases rule: processBook_cases [of sv env s])
  case (returned final)
  have "stops_at_failure env (pipeline sv env s)"
    using pipeline_ok [of env sv s] by (simp add: run_ok_def)
  with returned have "\<forall>ev \<in> set (fst (pipeline sv env s)). failure_of env ev = None"
    by (simp add: stops_at_failure_def)
  moreover from returned run have "fst (pipeline sv env s) = tr" by (metis fst_conv)
  ultimately have "failure_of env call = None" using thrown(1) by blast
  with thrown(2) show ?thesis by simp
next
  case (failed e0)
  from failed(1) obtain tr0 call0 where tr0: "fst (pipeline sv env s) = tr0 @ [call0]"
    "failure_of env call0 = Some e0" "\<forall>ev \<in> set tr0. failure_of env ev = None"
    "protocol sv env (session_after s tr0) call0"
    by (rule pipeline_failed)
  from failed(2) run tr0(1)
  have tr': "tr = tr0 @ [call0, OnProgress (progress_error (descriptiveError sv env e0))]"
    and r': "r = Inl (Error_obj (failure_prefix sv @ descriptiveError sv env e0))"
    by simp_all
  from thrown(1) tr' consider "call \<in> set tr0" | "call = call0"
    | "call = OnProgress (progress_error (descriptiveError sv env e0))"
    by auto
  then have same: "call = call0 \<and> e = e0"
  proof cases
    case 1
    with tr0(3) thrown(2) show ?thesis by auto
  next
    case 2
    with tr0(2) thrown(2) show ?thesis by simp
  next
    case 3
    with thrown(2) show ?thesis by simp
  qed
  let ?d = "descriptiveError sv env e"
  from same tr' r' have tr: "tr = tr0 @ [call, OnProgress (progress_error ?d)]"
    and r: "r = Inl (Error_obj (failure_prefix sv @ ?d))"
    by simp_all
  have after: "session_after s tr = merge (session_after s tr0) (progress_error ?d)"
    by (simp add: tr session_after_append failure_not_progress [OF thrown(2)])
  have st: "status (session_after s tr) = Error"
    and er: "error (session_after s tr) = Some ?d"
    and un: "unlinkedNotes (session_after s tr) = unlinkedNotes (session_after s tr0)"
    by (simp_all add: after progress_error_def no_update_def)
  have pre: "prefix (unlinkedNotes s) (unlinkedNotes (session_after s tr))"
    using processBook_prefix [of s sv env] run by simp
  have idx: "length (unlinkedNotes (session_after s tr)) = i"
    if "call = GenerateSingleNoteBody i x t" for i x t
  proof -
    from same that have "call0 = GenerateSingleNoteBody i x t" by simp
    with tr0(4) show ?thesis by (simp add: un)
  qed
  have ne: "message_of e \<noteq> Some [] \<longrightarrow> ?d \<noteq> []"
    by (simp add: descriptiveError_nonempty)
  from tr tr0(3) r ne st er un pre idx show ?thesis by blast
qed

theorem C6_error_propagation_witness:
  "GenerateSingleNoteBody 1 ''book'' ''B''
     \<in> set (fst (processBook GrokService (replies_failing (Error_obj ''Failed to fetch''))
                 session_resume))
   \<and> failure_of (replies_failing (Error_obj ''Failed to fetch''))
        (GenerateSingleNoteBody 1 ''book'' ''B'') = Some (Error_obj ''Failed to fetch'')
   \<and> snd (processBook GrokService (replies_failing (Error_obj ''Failed to fetch'')) session_resume)
     = Inl (Error_obj ''Failed to process book with Grok: Failed to fetch'')
   \<and> status (session_after session_resume
         (fst (processBook GrokService (replies_failing (Error_obj ''Failed to fetch''))
                session_resume))) = Error
   \<and> error (session_after session_resume
         (fst (processBook GrokService (replies_failing (Error_obj ''Failed to fetch''))
                session_resume))) = Some ''Failed to fetch''
   \<and> length (unlinkedNotes (session_after session_resume
         (fst (processBook GrokService (replies_failing (Error_obj ''Failed to fetch''))
                session_resume)))) = 1
   \<and> prefix (unlinkedNotes session_resume)
       (unlinkedNotes (session_after session_resume
         (fst (processBook GrokService (replies_failing (Error_obj ''Failed to fetch''))
                session_resume))))"
proof -
  let ?env = "replies_failing (Error_obj ''Failed to fetch'')"
  let ?call = "GenerateSingleNoteBody 1 ''book'' ''B''"
  obtain tr r where run: "processBook GrokService ?env session_resume = (tr, r)"
    by (cases "processBook GrokService ?env session_resume")
  have "?call \<in> set (fst (processBook GrokService ?env session_resume))"
    by code_simp
  with run have mem: "?call \<in> set tr" by simp
  have failed: "failure_of ?env ?call = Some (Error_obj ''Failed to fetch'')"
    by (simp add: replies_failing_def)
  have d: "failure_prefix GrokService @ descriptiveError GrokService ?env (Error_obj ''Failed to fetch'')
      = ''Failed to process book with Grok: Failed to fetch''"
    "descriptiveError GrokService ?env (Error_obj ''Failed to fetch'') = ''Failed to fetch''"
    by simp_all
  from C6_error_propagation [OF run mem failed]
  have "r = Inl (Error_obj (failure_prefix GrokService
              @ descriptiveError GrokService ?env (Error_obj ''Failed to fetch'')))
      \<and> status (session_after session_resume tr) = Error
      \<and> error (session_after session_resume tr)
          = Some (descriptiveError GrokService ?env (Error_obj ''Failed to fetch''))
      \<and> length (unlinkedNotes (session_after session_resume tr)) = 1
      \<and> prefix (unlinkedNotes session_resume) (unlinkedNotes (session_after session_resume tr))"
    by blast
  with mem failed run d show ?thesis by simp
qed

text \<open>
  The claim as it was stated, an error string that is never empty, fails when what was
  thrown is an \<^verbatim>\<open>Error\<close> with an empty message, which the retry wrapper rethrows as it is:
  the update carries the empty string.
\<close>

theorem C6_empty_message_counterexample:
  "callGrokWithRetries (fetch_failing (Error_obj [])) 3 2000 = ([ApiCall 0], Inl (Error_obj []))
   \<and> GenerateSingleNoteBody 0 ''book'' ''A''
       \<in> set (fst (processBook GrokService (replies_failing (Error_obj [])) session_titled))
   \<and> last (fst (processBook GrokService (replies_failing (Error_obj [])) session_titled))
       = OnProgress (progress_error [])
   \<and> p_error (progress_error []) = Some (Some [])
   \<and> error (session_after session_titled
         (fst (processBook GrokService (replies_failing (Error_obj [])) session_titled))) = Some []
   \<and> snd (processBook GrokService (replies_failing (Error_obj [])) session_titled)
       = Inl (Error_obj ''Failed to process book with Grok: '')"
  by code_simp

subsection \<open>The end of a successful run\<close>

text \<open>
  Claim C7 (terminal success), as amended. When phase 3 has run and the run returns, its
  last event is the progress update that carries the final notes, the status
  \<^verbatim>\<open>completed\<close> and the empty stage. That update has no \<^verbatim>\<open>error\<close> field, and neither has
  any other update of the run: the session's error stays what it was. It is \<^verbatim>\<open>runProcess\<close>
  of App.tsx that clears the error, before the run starts.
\<close>

theorem C7_terminal_success:
  assumes run: "processBook sv env s = (tr, Inr final)"
    and due: "status s \<noteq> Completed \<or> finalNotes s = []"
  shows "tr \<noteq> [] \<and> last tr = OnProgress (progress_completed final)
       \<and> progress_completed final
           = \<lparr>p_status = Some Completed, p_stage = Some [], p_titles = None,
               p_unlinkedNotes = None, p_finalNotes = Some final, p_error = None\<rparr>
       \<and> status (session_after s tr) = Completed \<and> stage (session_after s tr) = []
       \<and> finalNotes (session_after s tr) = final
       \<and> error (session_after s tr) = error s
       \<and> (sv = GrokService \<longrightarrow> error (runProcess env current s) = None)"
proof -
  have pipe: "pipeline sv env s = (tr, Inr final)"
    using run by (cases rule: processBook_cases [of sv env s]) (auto simp: prod_eq_iff)
  then obtain tr0 where tr0: "tr = tr0 @ [OnProgress (progress_completed final)]"
    using pipeline_last [of sv env s final] due by auto
  have ok: "run_ok env (protocol sv env) (pipeline_post s) s (pipeline sv env s)"
    by (rule pipeline_ok)
  with pipe due have post: "status (session_after s tr) = Completed"
    "stage (session_after s tr) = []" "finalNotes (session_after s tr) = final"
    by (simp_all add: run_ok_def pipeline_post_def phase3_due_def)
  from ok pipe have g: "guarded (protocol sv env) s tr" by (simp add: run_ok_def)
  have noerr: "\<forall>u. OnProgress u \<in> set tr \<longrightarrow> p_error u = None"
    using guarded_mem [OF g] protocol_update_error by blast
  then have err: "error (session_after c tr) = error c" for c
    by (rule session_after_error)
  have app: "error (runProcess env current s) = None" if "sv = GrokService"
    using that run err [of "current\<lparr>status := Processing, error := None\<rparr>"]
    by (simp add: runProcess_def processBookWithGrok_def)
  have shape: "progress_completed final
      = \<lparr>p_status = Some Completed, p_stage = Some [], p_titles = None,
          p_unlinkedNotes = None, p_finalNotes = Some final, p_error = None\<rparr>"
    by (simp add: progress_completed_def no_update_def)
  have lst: "tr \<noteq> [] \<and> last tr = OnProgress (progress_completed final)"
    unfolding tr0 by simp
  show ?thesis
  proof (intro conjI impI)
    show "tr \<noteq> []" using lst by (rule conjunct1)
    show "last tr = OnProgress (progress_completed final)" using lst by (rule conjunct2)
    show "progress_completed final
      = \<lparr>p_status = Some Completed, p_stage = Some [], p_titles = None,
          p_unlinkedNotes = None, p_finalNotes = Some final, p_error = None\<rparr>"
      by (rule shape)
    show "status (session_after s tr) = Completed" by (rule post)
    show "stage (session_after s tr) = []" by (rule post)
    show "finalNotes (session_after s tr) = final" by (rule post)
    show "error (session_after s tr) = error s" by (rule err)
    show "error (runProcess env current s) = None" if "sv = GrokService"
      using that by (rule app)
  qed
qed

theorem C7_terminal_success_witness:
  "snd (processBook GrokService replies_ok session_resume) = Inr final_AB
   \<and> last (fst (processBook GrokService replies_ok session_resume))
       = OnProgress (progress_completed final_AB)
   \<and> status (session_after session_resume (fst (processBook GrokService replies_ok session_resume)))
       = Completed
   \<and> stage (session_after session_resume (fst (processBook GrokService replies_ok session_resume)))
       = []
   \<and> error (runProcess replies_ok session_resume session_resume) = None"
proof -
  let ?tr = "fst (processBook GrokService replies_ok session_resume)"
  have r: "snd (processBook GrokService replies_ok session_resume) = Inr final_AB"
    by code_simp
  then have run: "processBook GrokService replies_ok session_resume = (?tr, Inr final_AB)"
    by (simp add: prod_eq_iff)
  have due: "status session_resume \<noteq> Completed \<or> finalNotes session_resume = []"
    by (simp add: session_resume_def)
  from C7_terminal_success [OF run due, of session_resume] r show ?thesis
    by simp
qed

text \<open>
  The claim as it was stated, the final update clears the error, fails for the consumer
  that merges the updates of a resumed run into the session it resumed: the error of the
  failed run is still there after the final update.
\<close>

theorem C7_error_kept_counterexample:
  "error session_resume = Some ''boom''
   \<and> snd (processBook GrokService replies_ok session_resume) = Inr final_AB
   \<and> last (fst (processBook GrokService replies_ok session_resume))
       = OnProgress (progress_completed final_AB)
   \<and> p_error (progress_completed final_AB) = None
   \<and> error (session_after session_resume (fst (processBook GrokService replies_ok session_resume)))
       = Some ''boom''"
  by code_simp

subsection \<open>Cross references\<close>




subsection \<open>Alignment of notes and titles\<close>




subsection \<open>Self links\<close>

text \<open>
  Claim C10 (no self link). No link of the graph leads from a note to itself; the list of
  link targets that \<^verbatim>\<open>interlinkSingleNote\<close> builds leaves out the note's own title; and so
  does the list of every interlink request of a run of the note-by-note service, which
  offers titles of the session's unlinked notes only.
\<close>

theorem C10_no_self_link:
  "(\<forall>l \<in> set (graph_links rt ns). link_source l \<noteq> link_target l)
   \<and> title noteToLink \<notin> set (otherTitles noteToLink allTitles)
   \<and> (\<forall>i n ts. InterlinkSingleNote i n ts \<in> set (fst (processBook sv env s)) \<longrightarrow>
         title n \<notin> set ts
         \<and> set ts \<subseteq> title ` set (unlinkedNotes (session_after s (fst (processBook sv env s)))))"
proof -
  have run: "title n \<notin> set ts
      \<and> set ts \<subseteq> title ` set (unlinkedNotes (session_after s (fst (processBook sv env s))))"
    if mem: "InterlinkSingleNote i n ts \<in> set (fst (processBook sv env s))" for i n ts
  proof -
    from mem obtain tr1 tr2 where tr: "fst (processBook sv env s) = tr1 @ InterlinkSingleNote i n ts # tr2"
      by (auto simp: in_set_conv_decomp)
    have g: "guarded (run_protocol sv env) s (tr1 @ InterlinkSingleNote i n ts # tr2)"
      using processBook_guarded [of sv env s] tr by simp
    then have p: "run_protocol sv env (session_after s tr1) (InterlinkSingleNote i n ts)"
      and g2: "guarded (run_protocol sv env) (session_after s tr1) (InterlinkSingleNote i n ts # tr2)"
      by (simp_all add: guarded_append)
    then have ts: "ts = otherTitles n (map title (unlinkedNotes (session_after s tr1)))"
      by (simp add: run_protocol_def)
    have "prefix (unlinkedNotes (session_after s tr1))
        (unlinkedNotes (session_after (session_after s tr1) (InterlinkSingleNote i n ts # tr2)))"
      using g2
      by (rule guarded_relation [where R = "\<lambda>a b. prefix (unlinkedNotes a) (unlinkedNotes b)"])
         (auto intro: run_protocol_prefix)
    then have "set (unlinkedNotes (session_after s tr1))
        \<subseteq> set (unlinkedNotes (session_after s (fst (processBook sv env s))))"
      unfolding tr by (auto simp: session_after_append dest: set_mono_prefix)
    with ts show ?thesis by (auto simp: otherTitles_def)
  qed
  with graph_links_no_loop [of _ rt ns] otherTitles_excludes [of noteToLink allTitles]
  show ?thesis by blast
qed

theorem C10_no_self_link_witness:
  "''[[A]]'' \<in> set (link_matches (content (linked_AB ! 0)))
   \<and> titleToIdMap latin1 linked_AB (targetTitle latin1 ''[[A]]'') = Some ''note_000''
   \<and> \<lparr>link_source = ''note_000'', link_target = ''note_000''\<rparr> \<notin> set (graph_links latin1 linked_AB)
   \<and> ''A'' \<notin> set (otherTitles note_A [''A'', ''B''])
   \<and> InterlinkSingleNote 0 note_A [''B'']
       \<in> set (fst (processBook OpenRouterService replies_ok session_interrupted))
   \<and> title note_A \<notin> set [''B'']"
proof -
  have ex: "''[[A]]'' \<in> set (link_matches (content (linked_AB ! 0)))
      \<and> titleToIdMap latin1 linked_AB (targetTitle latin1 ''[[A]]'') = Some ''note_000''"
    by code_simp
  have call: "InterlinkSingleNote 0 note_A [''B'']
      \<in> set (fst (processBook OpenRouterService replies_ok session_interrupted))"
    by code_simp
  have t: "title note_A = ''A''" by (simp add: note_A_def)
  from C10_no_self_link [of latin1 linked_AB note_A "[''A'', ''B'']" OpenRouterService replies_ok
      session_interrupted]
  have links: "\<forall>l \<in> set (graph_links latin1 linked_AB). link_source l \<noteq> link_target l"
    and other: "title note_A \<notin> set (otherTitles note_A [''A'', ''B''])"
    and calls: "\<forall>i n ts. InterlinkSingleNote i n ts
        \<in> set (fst (processBook OpenRouterService replies_ok session_interrupted)) \<longrightarrow>
        title n \<notin> set ts"
    by blast+
  from links have "\<lparr>link_source = ''note_000'', link_target = ''note_000''\<rparr>
      \<notin> set (graph_links latin1 linked_AB)"
    by force
  moreover from calls call have "title note_A \<notin> set [''B'']" by blast
  ultimately show ?thesis using ex call other t by simp
qed

end
